theory Spec2Isabelle
  imports Main "HOL-Library.AList" "HOL-Library.Multiset"
begin

section \<open>The crossword generator of Project 3 (generate.py)\<close>

text \<open>
  The class \<open>CrosswordCreator\<close> of \<open>Project 3/crossword/generate.py\<close> solves a
  crossword as a constraint satisfaction problem: node consistency, arc consistency
  (AC-3) and backtracking search over one shared, mutable \<open>self.domains\<close>.

  The embedding keeps the object structure of the Python program:
  \<^item> a Python \<open>set\<close> or \<open>list\<close> of words is an object on a heap; its contents are a
    \<open>string list\<close> in iteration order (a set is a list without repetitions, and a
    copy of it iterates in the same order);
  \<^item> a \<open>dict\<close> is an association list with distinct keys in insertion order; its
    values are references (heap addresses) where the Python values are mutable
    objects, so that \<open>dict.copy()\<close> copies the references and not the objects;
  \<^item> an exception is the left summand of the result type;
  \<^item> a \<open>for\<close> loop over a snapshot is a recursion over the snapshot that threads the
    state.
\<close>

subsection \<open>Exceptions and primitive operations\<close>

datatype error = IndexError | KeyError | TypeError | ValueError

text \<open>\<open>s[i]\<close> on a string: an index beyond the end raises \<open>IndexError\<close>.\<close>

definition str_index :: "string \<Rightarrow> nat \<Rightarrow> error + char" where
  "str_index w i = (if i < length w then Inr (w ! i) else Inl IndexError)"

text \<open>\<open>d[k]\<close> on a dictionary: a missing key raises \<open>KeyError\<close>.\<close>

definition dict_get :: "('k \<times> 'v) list \<Rightarrow> 'k \<Rightarrow> error + 'v" where
  "dict_get d k = (case map_of d k of None \<Rightarrow> Inl KeyError | Some v \<Rightarrow> Inr v)"

text \<open>
  \<open>c.remove(w)\<close> on a set or a list: the first occurrence goes; a missing element
  raises (\<open>KeyError\<close> for a set, \<open>ValueError\<close> for a list; the model does not record
  which of the two an object is and raises \<open>ValueError\<close>).
\<close>

definition py_remove :: "string \<Rightarrow> string list \<Rightarrow> error + string list" where
  "py_remove w ws = (if w \<in> set ws then Inr (remove1 w ws) else Inl ValueError)"

subsection \<open>The puzzle (crossword.py, used by generate.py)\<close>

datatype direction = ACROSS | DOWN

text \<open>
  Modelled from the spec: the class \<open>Variable\<close> of crossword.py is not among the
  sources. A slot is identified by row, column, direction and length.
\<close>

datatype variable =
  Variable (var_i: nat) (var_j: nat) (var_direction: direction) (var_length: nat)

text \<open>
  Modelled from the spec: the class \<open>Crossword\<close> of crossword.py is not among the
  sources. generate.py reads its set of slots \<open>variables\<close>, its vocabulary \<open>words\<close>
  and its overlap index \<open>overlaps\<close>, a total function over slot pairs that gives the
  character positions of the shared cell or nothing. The two sets are lists without
  repetitions, in iteration order.
\<close>

record crossword =
  variables :: "variable list"
  words :: "string list"
  overlaps :: "variable \<Rightarrow> variable \<Rightarrow> (nat \<times> nat) option"

text \<open>
  Modelled from the spec: \<open>Crossword.neighbors\<close> is not among the sources. The
  neighbours of a slot are the other slots that overlap it.
\<close>

definition neighbors :: "crossword \<Rightarrow> variable \<Rightarrow> variable list" where
  "neighbors cw var = filter (\<lambda>v. v \<noteq> var \<and> overlaps cw v var \<noteq> None) (variables cw)"

subsection \<open>The state of a CrosswordCreator\<close>

text \<open>
  \<open>heap\<close> gives the contents of every word collection, \<open>domains\<close> is the dictionary
  \<open>self.domains\<close> (slot to reference) and \<open>fresh\<close> is the next unused address.
\<close>

record creator =
  heap :: "nat \<Rightarrow> string list"
  domains :: "(variable \<times> nat) list"
  fresh :: nat

type_synonym assignment = "(variable \<times> string) list"

text \<open>
  \<open>__init__\<close>: every slot gets a copy of its own of the vocabulary
  (\<open>self.crossword.words.copy()\<close>).
\<close>

definition init :: "crossword \<Rightarrow> creator" where
  "init cw =
     \<lparr> heap = (\<lambda>ad. if ad < length (variables cw) then words cw else []),
       domains = zip (variables cw) [0 ..< length (variables cw)],
       fresh = length (variables cw) \<rparr>"

text \<open>What a caller can observe of the domain store: the words of every slot.\<close>

definition store :: "creator \<Rightarrow> (variable \<times> string list) list" where
  "store s = map (\<lambda>(var, ad). (var, heap s ad)) (domains s)"

definition domain_of :: "creator \<Rightarrow> variable \<Rightarrow> string list option" where
  "domain_of s var = map_option (heap s) (map_of (domains s) var)"

subsection \<open>enforce\_node\_consistency\<close>

text \<open>
  The inner loop runs over the snapshot \<open>self.domains[var].copy()\<close> and removes from
  the object itself.
\<close>

fun node_loop :: "variable \<Rightarrow> string list \<Rightarrow> creator \<Rightarrow> error + creator" where
  "node_loop var [] s = Inr s"
| "node_loop var (domain_word # rest) s =
     (if length domain_word \<noteq> var_length var then
        (case dict_get (domains s) var of
           Inl e \<Rightarrow> Inl e
         | Inr ad \<Rightarrow>
            (case py_remove domain_word (heap s ad) of
               Inl e \<Rightarrow> Inl e
             | Inr ws \<Rightarrow> node_loop var rest (s\<lparr>heap := (heap s)(ad := ws)\<rparr>)))
      else node_loop var rest s)"

fun node_vars :: "variable list \<Rightarrow> creator \<Rightarrow> error + creator" where
  "node_vars [] s = Inr s"
| "node_vars (var # vars) s =
     (case dict_get (domains s) var of
        Inl e \<Rightarrow> Inl e
      | Inr ad \<Rightarrow>
         (case node_loop var (heap s ad) s of
            Inl e \<Rightarrow> Inl e
          | Inr s' \<Rightarrow> node_vars vars s'))"

definition enforce_node_consistency :: "crossword \<Rightarrow> creator \<Rightarrow> error + creator" where
  "enforce_node_consistency cw s = node_vars (variables cw) s"

subsection \<open>revise\<close>

text \<open>
  The list comprehension
  \<open>[y_domain_word for y_domain_word in self.domains[y]
     if x_domain_word[x_overlap] == y_domain_word[y_overlap]]\<close>.
\<close>

fun y_possible_words :: "string \<Rightarrow> nat \<Rightarrow> nat \<Rightarrow> string list \<Rightarrow> error + string list" where
  "y_possible_words x_domain_word x_overlap y_overlap [] = Inr []"
| "y_possible_words x_domain_word x_overlap y_overlap (y_domain_word # rest) =
     (case str_index x_domain_word x_overlap of
        Inl e \<Rightarrow> Inl e
      | Inr cx \<Rightarrow>
         (case str_index y_domain_word y_overlap of
            Inl e \<Rightarrow> Inl e
          | Inr cy \<Rightarrow>
             (case y_possible_words x_domain_word x_overlap y_overlap rest of
                Inl e \<Rightarrow> Inl e
              | Inr ws \<Rightarrow> Inr (if cx = cy then y_domain_word # ws else ws))))"

text \<open>The loop over the snapshot \<open>self.domains[x].copy()\<close>; \<open>revised\<close> is the flag.\<close>

fun revise_loop ::
  "variable \<Rightarrow> variable \<Rightarrow> nat \<Rightarrow> nat \<Rightarrow> string list \<Rightarrow> bool \<Rightarrow> creator \<Rightarrow> error + (bool \<times> creator)"
where
  "revise_loop x y x_overlap y_overlap [] revised s = Inr (revised, s)"
| "revise_loop x y x_overlap y_overlap (x_domain_word # rest) revised s =
     (case dict_get (domains s) y of
        Inl e \<Rightarrow> Inl e
      | Inr ady \<Rightarrow>
         (case y_possible_words x_domain_word x_overlap y_overlap (heap s ady) of
            Inl e \<Rightarrow> Inl e
          | Inr possible \<Rightarrow>
             if length possible = 0 then
               (case dict_get (domains s) x of
                  Inl e \<Rightarrow> Inl e
                | Inr adx \<Rightarrow>
                   (case py_remove x_domain_word (heap s adx) of
                      Inl e \<Rightarrow> Inl e
                    | Inr ws \<Rightarrow>
                       revise_loop x y x_overlap y_overlap rest True
                         (s\<lparr>heap := (heap s)(adx := ws)\<rparr>)))
             else revise_loop x y x_overlap y_overlap rest revised s))"

definition revise :: "crossword \<Rightarrow> variable \<Rightarrow> variable \<Rightarrow> creator \<Rightarrow> error + (bool \<times> creator)" where
  "revise cw x y s =
     (case overlaps cw x y of
        None \<Rightarrow> Inr (False, s)
      | Some (x_overlap, y_overlap) \<Rightarrow>
         (case dict_get (domains s) x of
            Inl e \<Rightarrow> Inl e
          | Inr adx \<Rightarrow> revise_loop x y x_overlap y_overlap (heap s adx) False s))"

subsection \<open>ac3\<close>

text \<open>
  The initial queue when \<open>arcs\<close> is \<open>None\<close>: every slot paired with each of its
  neighbours.
\<close>

definition all_arcs :: "crossword \<Rightarrow> (variable \<times> variable) list" where
  "all_arcs cw =
     concat (map (\<lambda>var. map (\<lambda>neighbor. (var, neighbor)) (neighbors cw var)) (variables cw))"

text \<open>
  One pass of the body of \<open>while len(arcs) > 0\<close> on the arc taken from the front of
  the queue. The result is \<open>(Some b, _, s)\<close> when the body returns \<open>b\<close> from \<open>ac3\<close>,
  and \<open>(None, arcs, s)\<close> when the loop goes on with the queue \<open>arcs\<close>.
\<close>

definition ac3_body ::
  "crossword \<Rightarrow> variable \<times> variable \<Rightarrow> (variable \<times> variable) list \<Rightarrow> creator \<Rightarrow>
     error + (bool option \<times> (variable \<times> variable) list \<times> creator)"
where
  "ac3_body cw arc arcs s =
     (case revise cw (fst arc) (snd arc) s of
        Inl e \<Rightarrow> Inl e
      | Inr (revised, s') \<Rightarrow>
         if revised then
           (case dict_get (domains s') (fst arc) of
              Inl e \<Rightarrow> Inl e
            | Inr ad \<Rightarrow>
               if length (heap s' ad) = 0 then Inr (Some False, arcs, s')
               else Inr (None, arcs @ map (\<lambda>neighbor. (neighbor, fst arc)) (neighbors cw (fst arc)), s'))
         else Inr (None, arcs, s'))"

text \<open>The size of the domain store; every revision makes it smaller.\<close>

definition store_size :: "creator \<Rightarrow> nat" where
  "store_size s = sum_list (map (\<lambda>(var, ad). length (heap s ad)) (domains s))"

function ac3_loop ::
  "crossword \<Rightarrow> (variable \<times> variable) list \<Rightarrow> creator \<Rightarrow> error + (bool \<times> creator)"
where
  "ac3_loop cw [] s = Inr (True, s)"
| "ac3_loop cw (arc # arcs) s =
     (case ac3_body cw arc arcs s of
        Inl e \<Rightarrow> Inl e
      | Inr (Some b, _, s') \<Rightarrow> Inr (b, s')
      | Inr (None, arcs', s') \<Rightarrow> ac3_loop cw arcs' s')"
  by pat_completeness auto

definition ac3 ::
  "crossword \<Rightarrow> (variable \<times> variable) list option \<Rightarrow> creator \<Rightarrow> error + (bool \<times> creator)"
where
  "ac3 cw arcs s =
     (case arcs of
        None \<Rightarrow> ac3_loop cw (all_arcs cw) s
      | Some given \<Rightarrow> ac3_loop cw given s)"

subsection \<open>Assignments\<close>

text \<open>\<open>len(assignment) == len(self.crossword.variables)\<close>.\<close>

definition assignment_complete :: "crossword \<Rightarrow> assignment \<Rightarrow> bool" where
  "assignment_complete cw a = (length a = length (variables cw))"

text \<open>
  Some word of the assignment occurs more than once among
  \<open>list(assignment.values())\<close>.
\<close>

definition assignment_has_duplicates :: "assignment \<Rightarrow> bool" where
  "assignment_has_duplicates a = list_ex (\<lambda>(var, word). 1 < count_list (map snd a) word) a"

definition has_empty_domains :: "creator \<Rightarrow> bool" where
  "has_empty_domains s = list_ex (\<lambda>(var, ad). length (heap s ad) = 0) (domains s)"

subsection \<open>consistent\<close>

text \<open>
  \<open>for var in assignment: self.domains[var] = [assignment[var]]\<close>: every assigned
  slot is bound to a new one-word list.
\<close>

fun assign_domains :: "assignment \<Rightarrow> creator \<Rightarrow> creator" where
  "assign_domains [] s = s"
| "assign_domains ((var, word) # rest) s =
     assign_domains rest
       (s\<lparr>heap := (heap s)(fresh s := [word]),
          domains := AList.update var (fresh s) (domains s),
          fresh := Suc (fresh s)\<rparr>)"

text \<open>
  \<open>old_domains = self.domains.copy()\<close> copies the dictionary and shares the word
  collections it refers to; \<open>self.domains = old_domains\<close> puts the copied dictionary
  back and leaves the heap as it is.
\<close>

definition consistent :: "crossword \<Rightarrow> assignment \<Rightarrow> creator \<Rightarrow> error + (bool \<times> creator)" where
  "consistent cw a s =
     (if assignment_has_duplicates a then Inr (False, s)
      else
        let old_domains = domains s in
        (case enforce_node_consistency cw (assign_domains a s) of
           Inl e \<Rightarrow> Inl e
         | Inr s2 \<Rightarrow>
            if has_empty_domains s2 then Inr (False, s2\<lparr>domains := old_domains\<rparr>)
            else
              (case ac3 cw None s2 of
                 Inl e \<Rightarrow> Inl e
               | Inr (ok, s3) \<Rightarrow>
                  if \<not> ok then Inr (False, s3\<lparr>domains := old_domains\<rparr>)
                  else Inr (True, s3\<lparr>domains := old_domains\<rparr>))))"

subsection \<open>order\_domain\_values\<close>

text \<open>The innermost loop: \<open>constraints\<close> counts the neighbour's words that differ.\<close>

fun count_conflicts :: "string \<Rightarrow> nat \<Rightarrow> nat \<Rightarrow> string list \<Rightarrow> nat \<Rightarrow> error + nat" where
  "count_conflicts word var1_overlap var2_overlap [] constraints = Inr constraints"
| "count_conflicts word var1_overlap var2_overlap (neighbor_word # rest) constraints =
     (case str_index word var1_overlap of
        Inl e \<Rightarrow> Inl e
      | Inr c1 \<Rightarrow>
         (case str_index neighbor_word var2_overlap of
            Inl e \<Rightarrow> Inl e
          | Inr c2 \<Rightarrow>
             count_conflicts word var1_overlap var2_overlap rest
               (if c1 \<noteq> c2 then constraints + 1 else constraints)))"

text \<open>
  The loop over the neighbours that are not assigned; unpacking an overlap that is
  \<open>None\<close> raises \<open>TypeError\<close>.
\<close>

fun neighbor_loop ::
  "crossword \<Rightarrow> creator \<Rightarrow> variable \<Rightarrow> string \<Rightarrow> variable list \<Rightarrow> nat \<Rightarrow> error + nat"
where
  "neighbor_loop cw s var word [] constraints = Inr constraints"
| "neighbor_loop cw s var word (neighbor # rest) constraints =
     (case overlaps cw var neighbor of
        None \<Rightarrow> Inl TypeError
      | Some (var1_overlap, var2_overlap) \<Rightarrow>
         (case dict_get (domains s) neighbor of
            Inl e \<Rightarrow> Inl e
          | Inr ad \<Rightarrow>
             (case count_conflicts word var1_overlap var2_overlap (heap s ad) constraints of
                Inl e \<Rightarrow> Inl e
              | Inr constraints' \<Rightarrow> neighbor_loop cw s var word rest constraints')))"

fun word_loop ::
  "crossword \<Rightarrow> creator \<Rightarrow> variable \<Rightarrow> variable list \<Rightarrow> string list \<Rightarrow> error + (string \<times> nat) list"
where
  "word_loop cw s var non_assigned_neighbors [] = Inr []"
| "word_loop cw s var non_assigned_neighbors (word # rest) =
     (case neighbor_loop cw s var word non_assigned_neighbors 0 of
        Inl e \<Rightarrow> Inl e
      | Inr constraints \<Rightarrow>
         (case word_loop cw s var non_assigned_neighbors rest of
            Inl e \<Rightarrow> Inl e
          | Inr pairs \<Rightarrow> Inr ((word, constraints) # pairs)))"

text \<open>\<open>sorted\<close> is stable, as \<open>sort_key\<close> is.\<close>

definition order_domain_values ::
  "crossword \<Rightarrow> variable \<Rightarrow> assignment \<Rightarrow> creator \<Rightarrow> error + string list"
where
  "order_domain_values cw var a s =
     (case dict_get (domains s) var of
        Inl e \<Rightarrow> Inl e
      | Inr ad \<Rightarrow>
         let non_assigned_neighbors =
               filter (\<lambda>neighbor. neighbor \<notin> set (map fst a)) (neighbors cw var)
         in
         (case word_loop cw s var non_assigned_neighbors (heap s ad) of
            Inl e \<Rightarrow> Inl e
          | Inr pairs \<Rightarrow> Inr (map fst (sort_key snd pairs))))"

subsection \<open>select\_unassigned\_variable\<close>

fun smallest_domain ::
  "creator \<Rightarrow> variable list \<Rightarrow> nat option \<Rightarrow> variable list \<Rightarrow> error + variable list"
where
  "smallest_domain s [] smallest_domain_length smallest_domain_vars = Inr smallest_domain_vars"
| "smallest_domain s (var # rest) None smallest_domain_vars =
     (case dict_get (domains s) var of
        Inl e \<Rightarrow> Inl e
      | Inr ad \<Rightarrow>
         smallest_domain s rest (Some (length (heap s ad))) (smallest_domain_vars @ [var]))"
| "smallest_domain s (var # rest) (Some smallest_domain_length) smallest_domain_vars =
     (case dict_get (domains s) var of
        Inl e \<Rightarrow> Inl e
      | Inr ad \<Rightarrow>
         if length (heap s ad) < smallest_domain_length then
           smallest_domain s rest (Some (length (heap s ad))) [var]
         else if length (heap s ad) = smallest_domain_length then
           smallest_domain s rest (Some smallest_domain_length) (smallest_domain_vars @ [var])
         else smallest_domain s rest (Some smallest_domain_length) smallest_domain_vars)"

fun highest_degree :: "crossword \<Rightarrow> variable list \<Rightarrow> variable option \<Rightarrow> variable option" where
  "highest_degree cw [] highest_degree_var = highest_degree_var"
| "highest_degree cw (var # rest) None = highest_degree cw rest (Some var)"
| "highest_degree cw (var # rest) (Some highest_degree_var) =
     (if length (neighbors cw highest_degree_var) < length (neighbors cw var) then
        highest_degree cw rest (Some var)
      else highest_degree cw rest (Some highest_degree_var))"

definition select_unassigned_variable ::
  "crossword \<Rightarrow> assignment \<Rightarrow> creator \<Rightarrow> error + variable option"
where
  "select_unassigned_variable cw a s =
     (if assignment_complete cw a then Inr None
      else
        let unassigned_variables = filter (\<lambda>var. var \<notin> set (map fst a)) (variables cw) in
        (case smallest_domain s unassigned_variables None [] of
           Inl e \<Rightarrow> Inl e
         | Inr smallest_domain_vars \<Rightarrow>
            (case smallest_domain_vars of
               [var] \<Rightarrow> Inr (Some var)
             | _ \<Rightarrow> Inr (highest_degree cw smallest_domain_vars None))))"

subsection \<open>backtrack and solve\<close>

text \<open>
  The first argument bounds the depth of the recursion; \<open>None\<close> means that the bound
  was reached. The result is the returned value (\<open>None\<close> or the assignment), together
  with the contents of the caller's dictionary \<open>assignment\<close> and the state when the
  call returns: \<open>new_assignment = assignment\<close> names the caller's dictionary, and
  \<open>new_assignment[unassigned_var] = word\<close> writes to it. A slot \<open>None\<close> from
  \<open>select_unassigned_variable\<close> makes \<open>self.domains[None]\<close> raise \<open>KeyError\<close>.
  A bound above the number of slots that the assignment leaves open is never
  reached (\<open>backtrack_returns\<close> below).
\<close>

fun backtrack ::
  "nat \<Rightarrow> crossword \<Rightarrow> assignment \<Rightarrow> creator \<Rightarrow>
     (error + (assignment option \<times> assignment \<times> creator)) option"
and backtrack_words ::
  "nat \<Rightarrow> crossword \<Rightarrow> variable \<Rightarrow> string list \<Rightarrow> assignment \<Rightarrow> creator \<Rightarrow>
     (error + (assignment option \<times> assignment \<times> creator)) option"
where
  "backtrack 0 cw a s = None"
| "backtrack (Suc depth) cw a s =
     (if assignment_complete cw a then Some (Inr (Some a, a, s))
      else
        (case select_unassigned_variable cw a s of
           Inl e \<Rightarrow> Some (Inl e)
         | Inr None \<Rightarrow> Some (Inl KeyError)
         | Inr (Some unassigned_var) \<Rightarrow>
            (case order_domain_values cw unassigned_var a s of
               Inl e \<Rightarrow> Some (Inl e)
             | Inr sorted_domain_words \<Rightarrow>
                backtrack_words depth cw unassigned_var sorted_domain_words a s)))"
| "backtrack_words depth cw unassigned_var [] a s = Some (Inr (None, a, s))"
| "backtrack_words depth cw unassigned_var (word # rest) a s =
     (let new_assignment = AList.update unassigned_var word a in
      (case consistent cw new_assignment s of
         Inl e \<Rightarrow> Some (Inl e)
       | Inr (ok, s1) \<Rightarrow>
          if ok then
            (case enforce_node_consistency cw s1 of
               Inl e \<Rightarrow> Some (Inl e)
             | Inr s2 \<Rightarrow>
                (case ac3 cw None s2 of
                   Inl e \<Rightarrow> Some (Inl e)
                 | Inr (_, s3) \<Rightarrow>
                    (case backtrack depth cw new_assignment s3 of
                       None \<Rightarrow> None
                     | Some (Inl e) \<Rightarrow> Some (Inl e)
                     | Some (Inr (Some result, a', s4)) \<Rightarrow> Some (Inr (Some result, a', s4))
                     | Some (Inr (None, a', s4)) \<Rightarrow>
                        backtrack_words depth cw unassigned_var rest a'
                          (s4\<lparr>domains := domains s1\<rparr>))))
          else backtrack_words depth cw unassigned_var rest new_assignment s1))"

text \<open>\<open>solve\<close>: the value of \<open>self.ac3()\<close> is dropped.\<close>

definition solve ::
  "nat \<Rightarrow> crossword \<Rightarrow> creator \<Rightarrow> (error + (assignment option \<times> assignment \<times> creator)) option"
where
  "solve depth cw s =
     (case enforce_node_consistency cw s of
        Inl e \<Rightarrow> Some (Inl e)
      | Inr s1 \<Rightarrow>
         (case ac3 cw None s1 of
            Inl e \<Rightarrow> Some (Inl e)
          | Inr (_, s2) \<Rightarrow> backtrack depth cw [] s2))"

subsection \<open>Support of a word\<close>

text \<open>
  Following the spec: a word \<open>w\<close> of \<open>domain(x)\<close> is supported when some word of
  \<open>domain(y)\<close> agrees with it at the overlap offsets.
\<close>

definition supported :: "nat \<Rightarrow> nat \<Rightarrow> string list \<Rightarrow> string \<Rightarrow> bool" where
  "supported px py ys w = list_ex (\<lambda>u. w ! px = u ! py) ys"

subsection \<open>The least-constraining-value count\<close>

text \<open>
  Following the spec: the number of values a candidate word \<open>w\<close> of \<open>var\<close> eliminates
  is the sum, over the neighbours of \<open>var\<close> that are not assigned, of the number of
  words in the neighbour's domain that differ from \<open>w\<close> at the overlap.
\<close>

definition eliminated :: "crossword \<Rightarrow> creator \<Rightarrow> variable \<Rightarrow> assignment \<Rightarrow> string \<Rightarrow> nat" where
  "eliminated cw s var a w =
     sum_list (map
       (\<lambda>n. case overlaps cw var n of
              None \<Rightarrow> 0
            | Some (p, q) \<Rightarrow>
               (case domain_of s n of
                  None \<Rightarrow> 0
                | Some ns \<Rightarrow> length (filter (\<lambda>u. w ! p \<noteq> u ! q) ns)))
       (filter (\<lambda>n. n \<notin> set (map fst a)) (neighbors cw var)))"

subsection \<open>Invariants of the search\<close>

text \<open>
  Every reference of the dictionary is below the next unused address, so that a new
  list never shares its address with a collection of the dictionary.
\<close>

definition bounded :: "creator \<Rightarrow> bool" where
  "bounded s = (\<forall>u ad. map_of (domains s) u = Some ad \<longrightarrow> ad < fresh s)"

text \<open>
  While \<open>consistent\<close> checks the assignment \<open>a\<close>, every assigned slot refers to a
  one-word list of its own that holds its word.
\<close>

definition pinned :: "assignment \<Rightarrow> creator \<Rightarrow> bool" where
  "pinned a s =
     (\<forall>(v, w) \<in> set a. \<exists>ad. map_of (domains s) v = Some ad \<and> heap s ad = [w] \<and>
        (\<forall>u. u \<noteq> v \<longrightarrow> map_of (domains s) u \<noteq> Some ad))"

text \<open>
  The words that \<open>a\<close> gives to \<open>x\<close> and \<open>y\<close> reach the offsets of the overlap of
  \<open>x\<close> with \<open>y\<close> and have the same character there.
\<close>

definition agree :: "crossword \<Rightarrow> assignment \<Rightarrow> variable \<Rightarrow> variable \<Rightarrow> bool" where
  "agree cw a x y =
     (\<forall>wx wy px py. (x, wx) \<in> set a \<and> (y, wy) \<in> set a \<and> overlaps cw x y = Some (px, py) \<longrightarrow>
        px < length wx \<and> py < length wy \<and> wx ! px = wy ! py)"

text \<open>
  What \<open>consistent\<close> and \<open>assignment_complete\<close> have established of an assignment
  when \<open>backtrack\<close> returns it.
\<close>

definition checked :: "crossword \<Rightarrow> assignment \<Rightarrow> bool" where
  "checked cw r =
     (length r = length (variables cw) \<and> distinct (map fst r) \<and>
      set (map fst r) \<subseteq> set (variables cw) \<and> distinct (map snd r) \<and>
      (\<forall>(x, y) \<in> set (all_arcs cw). agree cw r x y))"

text \<open>
  Following the spec: an assignment is a solution when it is complete (it has as
  many entries as there are slots and gives a word to every slot), the words of its
  entries are pairwise distinct, and for every slot \<open>x\<close> and every neighbour \<open>y\<close> of
  \<open>x\<close> the two words have the same character at the recorded overlap positions.
\<close>

definition solution :: "crossword \<Rightarrow> assignment \<Rightarrow> bool" where
  "solution cw r =
     (assignment_complete cw r \<and>
      (\<forall>v \<in> set (variables cw). map_of r v \<noteq> None) \<and>
      distinct (map snd r) \<and>
      (\<forall>x \<in> set (variables cw). \<forall>y \<in> set (neighbors cw x). \<forall>wx wy px py.
         map_of r x = Some wx \<and> map_of r y = Some wy \<and> overlaps cw x y = Some (px, py) \<longrightarrow>
         px < length wx \<and> py < length wy \<and> wx ! px = wy ! py))"

text \<open>The number of slots that an assignment leaves open.\<close>

definition unassigned :: "crossword \<Rightarrow> assignment \<Rightarrow> nat" where
  "unassigned cw a = length (filter (\<lambda>var. var \<notin> set (map fst a)) (variables cw))"

subsection \<open>Well-formed states and example puzzles\<close>

text \<open>
  The dictionary \<open>self.domains\<close> has every key once, and no two slots refer to the
  same collection: \<open>__init__\<close> gives every slot a copy of its own.
\<close>

definition separate :: "creator \<Rightarrow> bool" where
  "separate s = (distinct (map fst (domains s)) \<and> distinct (map snd (domains s)))"

text \<open>
  A grid of two slots of length two that cross in their first cells, over a given
  vocabulary.
\<close>

definition across2 :: variable where
  "across2 = Variable 0 0 ACROSS 2"

definition down2 :: variable where
  "down2 = Variable 0 0 DOWN 2"

definition crossing :: "variable \<Rightarrow> variable \<Rightarrow> (nat \<times> nat) option" where
  "crossing a b =
     (if (a = across2 \<and> b = down2) \<or> (a = down2 \<and> b = across2) then Some (0, 0) else None)"

definition two_slots :: "string list \<Rightarrow> crossword" where
  "two_slots ws = \<lparr> variables = [across2, down2], words = ws, overlaps = crossing \<rparr>"

text \<open>
  A state of the two-slot grid: the across slot may still be \<open>AB\<close> or \<open>CD\<close>, the
  down slot only \<open>AB\<close>.
\<close>

definition narrowed :: creator where
  "narrowed =
     \<lparr> heap = (\<lambda>ad. if ad = 0 then [''AB'', ''CD''] else if ad = 1 then [''AB''] else []),
       domains = [(across2, 0), (down2, 1)],
       fresh = 2 \<rparr>"

text \<open>The same grid with the across slot's words in the other order.\<close>

definition swapped :: creator where
  "swapped =
     \<lparr> heap = (\<lambda>ad. if ad = 0 then [''CD'', ''AB''] else if ad = 1 then [''AB''] else []),
       domains = [(across2, 0), (down2, 1)],
       fresh = 2 \<rparr>"

text \<open>A grid without slots.\<close>

definition no_slots :: crossword where
  "no_slots = \<lparr> variables = [], words = [''AB''], overlaps = (\<lambda>a b. None) \<rparr>"

section \<open>Basic facts\<close>

subsection \<open>Primitive operations and the termination of ac3\<close>

lemma sum_list_map_less:
  fixes f g :: "'a \<Rightarrow> nat"
  assumes "\<And>x. x \<in> set xs \<Longrightarrow> f x \<le> g x" "z \<in> set xs" "f z < g z"
  shows "sum_list (map f xs) < sum_list (map g xs)"
  using assms
proof (induction xs)
  case Nil
  then show ?case by simp
next
  case (Cons a xs)
  have le: "sum_list (map f xs) \<le> sum_list (map g xs)"
    by (rule sum_list_mono) (simp add: Cons.prems(1))
  show ?case
  proof (cases "z = a")
    case True
    with Cons.prems(3) le show ?thesis by simp
  next
    case False
    with Cons.prems have "z \<in> set xs" by simp
    with Cons have "sum_list (map f xs) < sum_list (map g xs)" by simp
    moreover have "f a \<le> g a" using Cons.prems(1) by simp
    ultimately show ?thesis by simp
  qed
qed

lemma dict_get_Inr: "dict_get d k = Inr v \<longleftrightarrow> map_of d k = Some v"
  by (simp add: dict_get_def split: option.splits)

lemma dict_get_Inl: "dict_get d k = Inl e \<longleftrightarrow> map_of d k = None \<and> e = KeyError"
  by (auto simp add: dict_get_def split: option.splits)

lemma py_remove_Inr: "py_remove w ws = Inr zs \<longleftrightarrow> w \<in> set ws \<and> zs = remove1 w ws"
  by (auto simp add: py_remove_def)

lemma revise_loop_frame:
  "revise_loop x y xo yo snap revised s = Inr (b, s') \<Longrightarrow>
     domains s' = domains s \<and> fresh s' = fresh s \<and> (revised \<longrightarrow> b)"
proof (induction snap arbitrary: revised s)
  case Nil
  then show ?case by simp
next
  case (Cons w snap)
  then show ?case
    by (auto split: sum.splits if_splits)
qed

lemma revise_loop_unrevised:
  "revise_loop x y xo yo snap revised s = Inr (False, s') \<Longrightarrow> s' = s"
proof (induction snap arbitrary: revised s)
  case Nil
  then show ?case by simp
next
  case (Cons w snap)
  then show ?case
    by (auto split: sum.splits if_splits dest: revise_loop_frame)
qed

lemma revise_loop_heap:
  "revise_loop x y xo yo snap revised s = Inr (b, s') \<Longrightarrow> dict_get (domains s) x = Inr adx \<Longrightarrow>
     (\<forall>ad. ad \<noteq> adx \<longrightarrow> heap s' ad = heap s ad) \<and>
     set (heap s' adx) \<subseteq> set (heap s adx) \<and>
     length (heap s' adx) \<le> length (heap s adx) \<and>
     (b \<and> \<not> revised \<longrightarrow> length (heap s' adx) < length (heap s adx))"
proof (induction snap arbitrary: revised s)
  case Nil
  then show ?case by simp
next
  case (Cons w snap)
  show ?case
  proof (cases "revise_loop x y xo yo (w # snap) revised s")
    case (Inl e)
    with Cons.prems show ?thesis by simp
  next
    case (Inr r)
    from Cons.prems(1) obtain ady possible where
      ady: "dict_get (domains s) y = Inr ady" and
      poss: "y_possible_words w xo yo (heap s ady) = Inr possible"
      by (auto split: sum.splits)
    show ?thesis
    proof (cases "length possible = 0")
      case False
      with Cons.prems ady poss have "revise_loop x y xo yo snap revised s = Inr (b, s')"
        by simp
      from Cons.IH [OF this Cons.prems(2)] show ?thesis .
    next
      case True
      with Cons.prems ady poss obtain ws where
        ws: "py_remove w (heap s adx) = Inr ws" and
        rec: "revise_loop x y xo yo snap True (s\<lparr>heap := (heap s)(adx := ws)\<rparr>) = Inr (b, s')"
        by (auto split: sum.splits)
      let ?s1 = "s\<lparr>heap := (heap s)(adx := ws)\<rparr>"
      have d1: "dict_get (domains ?s1) x = Inr adx" using Cons.prems(2) by simp
      from ws have mem: "w \<in> set (heap s adx)" and wsd: "ws = remove1 w (heap s adx)"
        by (simp_all add: py_remove_Inr)
      from mem wsd have len: "length ws < length (heap s adx)"
        by (simp add: length_remove1) (cases "heap s adx"; simp)
      have sub: "set ws \<subseteq> set (heap s adx)" using wsd by (simp add: set_remove1_subset)
      from Cons.IH [OF rec d1] len sub show ?thesis by auto
    qed
  qed
qed

lemma store_size_less:
  assumes "domains s' = domains s" "map_of (domains s) x = Some adx"
    "\<forall>ad. ad \<noteq> adx \<longrightarrow> heap s' ad = heap s ad"
    "length (heap s' adx) < length (heap s adx)"
  shows "store_size s' < store_size s"
proof -
  have mem: "(x, adx) \<in> set (domains s)" using assms(2) by (rule map_of_SomeD)
  show ?thesis
    unfolding store_size_def assms(1)
  proof (rule sum_list_map_less [where z = "(x, adx)"])
    fix p assume "p \<in> set (domains s)"
    show "(case p of (var, ad) \<Rightarrow> length (heap s' ad)) \<le> (case p of (var, ad) \<Rightarrow> length (heap s ad))"
      using assms(3,4) by (cases p) (cases "snd p = adx"; auto)
  next
    show "(x, adx) \<in> set (domains s)" by (rule mem)
  next
    show "(case (x, adx) of (var, ad) \<Rightarrow> length (heap s' ad)) < (case (x, adx) of (var, ad) \<Rightarrow> length (heap s ad))"
      using assms(4) by simp
  qed
qed

lemma revise_unrevised: "revise cw x y s = Inr (False, s') \<Longrightarrow> s' = s"
  by (auto simp: revise_def split: option.splits sum.splits dest: revise_loop_unrevised)

lemma revise_frame: "revise cw x y s = Inr (b, s') \<Longrightarrow> domains s' = domains s \<and> fresh s' = fresh s"
  by (auto simp: revise_def split: option.splits sum.splits dest: revise_loop_frame)

lemma revise_revised:
  assumes "revise cw x y s = Inr (True, s')"
  shows "\<exists>adx. map_of (domains s) x = Some adx \<and>
     (\<forall>ad. ad \<noteq> adx \<longrightarrow> heap s' ad = heap s ad) \<and>
     set (heap s' adx) \<subseteq> set (heap s adx) \<and>
     length (heap s' adx) < length (heap s adx)"
proof -
  from assms obtain xo yo adx where
    adx: "dict_get (domains s) x = Inr adx" and
    loop: "revise_loop x y xo yo (heap s adx) False s = Inr (True, s')"
    by (auto simp: revise_def split: option.splits sum.splits)
  from revise_loop_heap [OF loop adx] adx show ?thesis
    by (auto simp: dict_get_Inr)
qed

lemma revise_store_size: "revise cw x y s = Inr (True, s') \<Longrightarrow> store_size s' < store_size s"
  using revise_revised [of cw x y s s'] revise_frame [of cw x y s True s']
  by (auto intro: store_size_less)

lemma ac3_body_decreases:
  assumes "ac3_body cw arc arcs s = Inr (None, arcs', s')"
  shows "store_size s' < store_size s \<or> (s' = s \<and> arcs' = arcs)"
  using assms
  by (auto simp: ac3_body_def split: sum.splits if_splits dest: revise_store_size revise_unrevised)

termination ac3_loop
proof (relation "measures [\<lambda>(cw, arcs, s). store_size s, \<lambda>(cw, arcs, s). length arcs]")
  show "wf (measures [\<lambda>(cw, arcs, s). store_size s, \<lambda>(cw, arcs, s). length arcs])"
    by (rule wf_measures)
next
  fix cw arc arcs s r p arcs' s' o1
  assume "ac3_body cw arc arcs s = Inr r" "(o1, p) = r" "(arcs', s') = p" "o1 = None"
  then have "ac3_body cw arc arcs s = Inr (None, arcs', s')" by simp
  from ac3_body_decreases [OF this]
  show "((cw, arcs', s'), cw, arc # arcs, s) \<in> measures [\<lambda>(cw, arcs, s). store_size s, \<lambda>(cw, arcs, s). length arcs]"
    by auto
qed

subsection \<open>Node consistency\<close>

lemma separate_address:
  assumes "separate s" "map_of (domains s) u = Some ad" "map_of (domains s) v = Some ad"
  shows "u = v"
proof -
  from assms(2,3) have "(u, ad) \<in> set (domains s)" "(v, ad) \<in> set (domains s)"
    by (auto dest: map_of_SomeD)
  with assms(1) show ?thesis
    unfolding separate_def by (metis eq_key_imp_eq_value distinct_map inj_on_def snd_conv fst_conv)
qed

lemma node_loop_filter:
  assumes "dict_get (domains s) var = Inr ad" "heap s ad = pre @ snap"
    "\<forall>w \<in> set pre. length w = var_length var"
  shows "node_loop var snap s =
     Inr (s\<lparr>heap := (heap s)(ad := pre @ filter (\<lambda>w. length w = var_length var) snap)\<rparr>)"
  using assms
proof (induction snap arbitrary: pre s)
  case Nil
  then have "(heap s)(ad := pre) = heap s" by auto
  then show ?case by simp
next
  case (Cons w snap)
  let ?P = "\<lambda>w. length w = var_length var"
  show ?case
  proof (cases "length w = var_length var")
    case True
    have f: "pre @ filter ?P (w # snap) = (pre @ [w]) @ filter ?P snap"
      using True by simp
    have step: "node_loop var (w # snap) s = node_loop var snap s"
      using True by simp
    have "node_loop var snap s = Inr (s\<lparr>heap := (heap s)(ad := (pre @ [w]) @ filter ?P snap)\<rparr>)"
      by (rule Cons.IH) (use Cons.prems True in auto)
    then show ?thesis by (simp only: step f)
  next
    case False
    with Cons.prems(3) have notin: "w \<notin> set pre" by auto
    let ?s1 = "s\<lparr>heap := (heap s)(ad := pre @ snap)\<rparr>"
    have rm: "py_remove w (heap s ad) = Inr (pre @ snap)"
      using Cons.prems(2) notin by (simp add: py_remove_def remove1_append)
    have f: "filter ?P (w # snap) = filter ?P snap"
      using False by simp
    have step: "node_loop var (w # snap) s = node_loop var snap ?s1"
      using False rm Cons.prems(1) by simp
    have rec: "node_loop var snap ?s1 = Inr (?s1\<lparr>heap := (heap ?s1)(ad := pre @ filter ?P snap)\<rparr>)"
      by (rule Cons.IH) (use Cons.prems in auto)
    have eq: "?s1\<lparr>heap := (heap ?s1)(ad := pre @ filter ?P snap)\<rparr> =
        s\<lparr>heap := (heap s)(ad := pre @ filter ?P snap)\<rparr>"
      by simp
    show ?thesis by (simp only: step rec eq f)
  qed
qed

lemma node_vars_filter:
  assumes "separate s" "set vars \<subseteq> fst ` set (domains s)"
  shows "\<exists>s'. node_vars vars s = Inr s' \<and> domains s' = domains s \<and> fresh s' = fresh s \<and>
     (\<forall>var ad. map_of (domains s) var = Some ad \<longrightarrow>
        heap s' ad = (if var \<in> set vars then filter (\<lambda>w. length w = var_length var) (heap s ad)
                      else heap s ad))"
  using assms
proof (induction vars arbitrary: s)
  case Nil
  then show ?case by simp
next
  case (Cons v vars)
  from Cons.prems(2) obtain ad where ad: "map_of (domains s) v = Some ad"
    by (metis list.set_intros(1) subsetD weak_map_of_SomeI map_of_eq_None_iff not_Some_eq)
  let ?P = "\<lambda>var w. length w = var_length var"
  let ?s1 = "s\<lparr>heap := (heap s)(ad := filter (?P v) (heap s ad))\<rparr>"
  have loop: "node_loop v (heap s ad) s = Inr ?s1"
    using node_loop_filter [of s v ad "[]" "heap s ad"] ad by (simp add: dict_get_Inr)
  have sep1: "separate ?s1" using Cons.prems(1) by (simp add: separate_def)
  have sub1: "set vars \<subseteq> fst ` set (domains ?s1)" using Cons.prems(2) by simp
  from Cons.IH [OF sep1 sub1] obtain s' where
    run: "node_vars vars ?s1 = Inr s'" and dom: "domains s' = domains s" and fr: "fresh s' = fresh s" and
    hp: "\<forall>var a. map_of (domains s) var = Some a \<longrightarrow>
        heap s' a = (if var \<in> set vars then filter (?P var) (heap ?s1 a) else heap ?s1 a)"
    by auto
  have "node_vars (v # vars) s = Inr s'"
    using ad loop run by (simp add: dict_get_def)
  moreover have "heap s' a = (if var \<in> set (v # vars) then filter (?P var) (heap s a) else heap s a)"
    if m: "map_of (domains s) var = Some a" for var a
  proof (cases "var = v")
    case True
    with m ad have "a = ad" by simp
    with hp m True show ?thesis by simp
  next
    case False
    with separate_address [OF Cons.prems(1) m] ad have "a \<noteq> ad" by auto
    with hp m False show ?thesis by simp
  qed
  ultimately show ?case using dom fr by blast
qed

text \<open>
  C7: on a state where every slot has a collection of its own,
  \<open>enforce_node_consistency\<close> returns normally, and afterwards the domain of every
  slot is its old domain filtered by the slot's length: every word that remains has
  the length of the slot, and no word of that length is removed.
\<close>

theorem enforce_node_consistency_filters:
  assumes "separate s" "set (variables cw) \<subseteq> fst ` set (domains s)"
  shows "\<exists>s'. enforce_node_consistency cw s = Inr s' \<and> domains s' = domains s \<and>
     (\<forall>var \<in> set (variables cw).
        domain_of s' var = map_option (filter (\<lambda>w. length w = var_length var)) (domain_of s var))"
proof -
  from node_vars_filter [OF assms] obtain s' where
    run: "node_vars (variables cw) s = Inr s'" and dom: "domains s' = domains s" and
    hp: "\<forall>var ad. map_of (domains s) var = Some ad \<longrightarrow>
        heap s' ad = (if var \<in> set (variables cw) then filter (\<lambda>w. length w = var_length var) (heap s ad)
                      else heap s ad)"
    by blast
  have "domain_of s' var = map_option (filter (\<lambda>w. length w = var_length var)) (domain_of s var)"
    if "var \<in> set (variables cw)" for var
    using that hp dom by (cases "map_of (domains s) var") (auto simp: domain_of_def)
  with run dom show ?thesis by (auto simp: enforce_node_consistency_def)
qed

lemmas ex_defs = two_slots_def across2_def down2_def crossing_def init_def separate_def narrowed_def
  swapped_def

theorem enforce_node_consistency_filters_witness:
  "separate (init (two_slots [''AB'', ''CAT''])) \<and>
   set (variables (two_slots [''AB'', ''CAT''])) \<subseteq> fst ` set (domains (init (two_slots [''AB'', ''CAT'']))) \<and>
   (\<exists>s'. enforce_node_consistency (two_slots [''AB'', ''CAT'']) (init (two_slots [''AB'', ''CAT''])) = Inr s' \<and>
      domains s' = domains (init (two_slots [''AB'', ''CAT''])) \<and>
      (\<forall>var \<in> set (variables (two_slots [''AB'', ''CAT''])).
         domain_of s' var = map_option (filter (\<lambda>w. length w = var_length var))
            (domain_of (init (two_slots [''AB'', ''CAT''])) var)))"
proof -
  have h1: "separate (init (two_slots [''AB'', ''CAT'']))"
    by (simp add: ex_defs)
  have h2: "set (variables (two_slots [''AB'', ''CAT''])) \<subseteq> fst ` set (domains (init (two_slots [''AB'', ''CAT''])))"
    by (simp add: ex_defs)
  from enforce_node_consistency_filters [OF h1 h2] h1 h2 show ?thesis by blast
qed

subsection \<open>Revision of an arc\<close>

lemma y_possible_words_filter:
  assumes "xo < length w" "\<forall>u \<in> set ys. yo < length u"
  shows "y_possible_words w xo yo ys = Inr (filter (\<lambda>u. w ! xo = u ! yo) ys)"
  using assms by (induction ys) (auto simp: str_index_def)

lemma y_possible_words_empty:
  assumes "y_possible_words w xo yo ys = Inr possible"
  shows "length possible = 0 \<longleftrightarrow> \<not> supported xo yo ys w"
  using assms
proof (induction ys arbitrary: possible)
  case Nil
  then show ?case by (simp add: supported_def)
next
  case (Cons u ys)
  then show ?case
    by (auto simp: supported_def str_index_def split: sum.splits if_splits)
qed

lemma revise_loop_exact:
  assumes "dict_get (domains s) x = Inr adx" "dict_get (domains s) y = Inr ady" "adx \<noteq> ady"
    "heap s adx = pre @ snap" "heap s ady = ys"
    "\<forall>w \<in> set pre. supported xo yo ys w"
    "\<forall>w \<in> set snap. xo < length w" "\<forall>u \<in> set ys. yo < length u"
  shows "revise_loop x y xo yo snap revised s =
     Inr (revised \<or> (\<exists>w \<in> set snap. \<not> supported xo yo ys w),
          s\<lparr>heap := (heap s)(adx := pre @ filter (supported xo yo ys) snap)\<rparr>)"
  using assms
proof (induction snap arbitrary: pre s revised)
  case Nil
  then have "(heap s)(adx := pre) = heap s" by auto
  then show ?case by simp
next
  case (Cons w snap)
  let ?P = "supported xo yo ys"
  have poss: "y_possible_words w xo yo (heap s ady) = Inr (filter (\<lambda>u. w ! xo = u ! yo) ys)"
    using Cons.prems by (simp add: y_possible_words_filter)
  have emp: "length (filter (\<lambda>u. w ! xo = u ! yo) ys) = 0 \<longleftrightarrow> \<not> ?P w"
    using y_possible_words_empty [OF poss] Cons.prems(5) by simp
  show ?case
  proof (cases "?P w")
    case True
    have f: "pre @ filter ?P (w # snap) = (pre @ [w]) @ filter ?P snap"
      using True by simp
    have fl: "(revised \<or> (\<exists>w \<in> set (w # snap). \<not> ?P w)) = (revised \<or> (\<exists>w \<in> set snap. \<not> ?P w))"
      using True by simp
    have step: "revise_loop x y xo yo (w # snap) revised s = revise_loop x y xo yo snap revised s"
      using True poss emp Cons.prems(2) by simp
    have "revise_loop x y xo yo snap revised s =
       Inr (revised \<or> (\<exists>w \<in> set snap. \<not> ?P w),
            s\<lparr>heap := (heap s)(adx := (pre @ [w]) @ filter ?P snap)\<rparr>)"
      by (rule Cons.IH) (use Cons.prems True in auto)
    then show ?thesis by (simp only: step f fl)
  next
    case False
    with Cons.prems(6) have notin: "w \<notin> set pre" by auto
    let ?s1 = "s\<lparr>heap := (heap s)(adx := pre @ snap)\<rparr>"
    have rm: "py_remove w (heap s adx) = Inr (pre @ snap)"
      using Cons.prems(4) notin by (simp add: py_remove_def remove1_append)
    have f: "filter ?P (w # snap) = filter ?P snap"
      using False by simp
    have fl: "(revised \<or> (\<exists>w \<in> set (w # snap). \<not> ?P w)) = True"
      using False by simp
    have step: "revise_loop x y xo yo (w # snap) revised s = revise_loop x y xo yo snap True ?s1"
      using False poss emp rm Cons.prems(1,2) by simp
    have rec: "revise_loop x y xo yo snap True ?s1 =
       Inr (True \<or> (\<exists>w \<in> set snap. \<not> ?P w),
            ?s1\<lparr>heap := (heap ?s1)(adx := pre @ filter ?P snap)\<rparr>)"
      by (rule Cons.IH) (use Cons.prems in auto)
    have eq: "?s1\<lparr>heap := (heap ?s1)(adx := pre @ filter ?P snap)\<rparr> =
        s\<lparr>heap := (heap s)(adx := pre @ filter ?P snap)\<rparr>"
      by simp
    show ?thesis by (simp only: step rec eq f fl simp_thms)
  qed
qed

text \<open>
  C6: when the two slots do not overlap, \<open>revise\<close> returns \<open>False\<close> and leaves
  the state as it is. When they overlap at \<open>(px, py)\<close>, their collections are
  different objects and every word reaches its overlap offset, \<open>revise\<close> keeps in
  \<open>domain(x)\<close> exactly the supported words, removes the others, and returns whether
  a word was removed.
\<close>

theorem revise_exact:
  "(overlaps cw x y = None \<longrightarrow> revise cw x y s = Inr (False, s)) \<and>
   (\<forall>px py adx ady.
      overlaps cw x y = Some (px, py) \<and>
      map_of (domains s) x = Some adx \<and> map_of (domains s) y = Some ady \<and> adx \<noteq> ady \<and>
      (\<forall>w \<in> set (heap s adx). px < length w) \<and> (\<forall>u \<in> set (heap s ady). py < length u) \<longrightarrow>
      revise cw x y s =
        Inr (filter (supported px py (heap s ady)) (heap s adx) \<noteq> heap s adx,
             s\<lparr>heap := (heap s)(adx := filter (supported px py (heap s ady)) (heap s adx))\<rparr>))"
proof (intro conjI allI impI)
  assume "overlaps cw x y = None"
  then show "revise cw x y s = Inr (False, s)" by (simp add: revise_def)
next
  fix px py adx ady
  assume h: "overlaps cw x y = Some (px, py) \<and>
      map_of (domains s) x = Some adx \<and> map_of (domains s) y = Some ady \<and> adx \<noteq> ady \<and>
      (\<forall>w \<in> set (heap s adx). px < length w) \<and> (\<forall>u \<in> set (heap s ady). py < length u)"
  let ?P = "supported px py (heap s ady)"
  have "revise_loop x y px py (heap s adx) False s =
     Inr (False \<or> (\<exists>w \<in> set (heap s adx). \<not> ?P w),
          s\<lparr>heap := (heap s)(adx := [] @ filter ?P (heap s adx))\<rparr>)"
    by (rule revise_loop_exact) (use h in \<open>auto simp: dict_get_Inr\<close>)
  moreover have "(\<exists>w \<in> set (heap s adx). \<not> ?P w) \<longleftrightarrow> filter ?P (heap s adx) \<noteq> heap s adx"
    by (auto simp: filter_id_conv)
  ultimately show "revise cw x y s =
        Inr (filter ?P (heap s adx) \<noteq> heap s adx, s\<lparr>heap := (heap s)(adx := filter ?P (heap s adx))\<rparr>)"
    using h by (simp add: revise_def dict_get_def)
qed

lemma revise_loop_mset:
  "revise_loop x y xo yo snap revised s = Inr (b, s') \<Longrightarrow> dict_get (domains s) x = Inr adx \<Longrightarrow>
     mset (heap s' adx) \<subseteq># mset (heap s adx)"
proof (induction snap arbitrary: revised s)
  case Nil
  then show ?case by simp
next
  case (Cons w snap)
  from Cons.prems(1) obtain ady possible where
    ady: "dict_get (domains s) y = Inr ady" and
    poss: "y_possible_words w xo yo (heap s ady) = Inr possible"
    by (auto split: sum.splits)
  show ?case
  proof (cases "length possible = 0")
    case False
    with Cons.prems ady poss have "revise_loop x y xo yo snap revised s = Inr (b, s')"
      by simp
    from Cons.IH [OF this Cons.prems(2)] show ?thesis .
  next
    case True
    with Cons.prems ady poss obtain ws where
      ws: "py_remove w (heap s adx) = Inr ws" and
      rec: "revise_loop x y xo yo snap True (s\<lparr>heap := (heap s)(adx := ws)\<rparr>) = Inr (b, s')"
      by (auto split: sum.splits)
    let ?s1 = "s\<lparr>heap := (heap s)(adx := ws)\<rparr>"
    have d1: "dict_get (domains ?s1) x = Inr adx" using Cons.prems(2) by simp
    from ws have "mset ws \<subseteq># mset (heap s adx)"
      by (simp add: py_remove_Inr)
    with Cons.IH [OF rec d1] show ?thesis
      by (auto intro: subset_mset.order_trans)
  qed
qed

text \<open>
  C10: when \<open>revise(x, y)\<close> returns, the dictionary is the same, the domain of
  every slot other than \<open>x\<close> is unchanged, and the new domain of \<open>x\<close> is a part of
  the old one.
\<close>

theorem revise_changes_only_x:
  assumes "separate s" "revise cw x y s = Inr (revised, s')"
  shows "domains s' = domains s \<and>
     (\<forall>z. z \<noteq> x \<longrightarrow> domain_of s' z = domain_of s z) \<and>
     (\<forall>ws. domain_of s x = Some ws \<longrightarrow>
        (\<exists>ws'. domain_of s' x = Some ws' \<and> mset ws' \<subseteq># mset ws))"
proof (cases "overlaps cw x y")
  case None
  with assms(2) have "s' = s" by (simp add: revise_def)
  then show ?thesis by simp
next
  case (Some p)
  obtain xo yo where p: "p = (xo, yo)" by (cases p)
  from assms(2) Some p obtain adx where
    adx: "dict_get (domains s) x = Inr adx" and
    loop: "revise_loop x y xo yo (heap s adx) False s = Inr (revised, s')"
    by (auto simp: revise_def split: sum.splits)
  from revise_loop_frame [OF loop] have dom: "domains s' = domains s" by simp
  from revise_loop_heap [OF loop adx] have others: "\<forall>ad. ad \<noteq> adx \<longrightarrow> heap s' ad = heap s ad"
    by simp
  have mx: "map_of (domains s) x = Some adx" using adx by (simp add: dict_get_Inr)
  have "domain_of s' z = domain_of s z" if "z \<noteq> x" for z
  proof (cases "map_of (domains s) z")
    case None
    then show ?thesis by (simp add: domain_of_def dom)
  next
    case (Some az)
    with separate_address [OF assms(1) Some, of x] mx that have "az \<noteq> adx" by auto
    with others Some show ?thesis by (simp add: domain_of_def dom)
  qed
  moreover have "\<exists>ws'. domain_of s' x = Some ws' \<and> mset ws' \<subseteq># mset ws"
    if "domain_of s x = Some ws" for ws
    using that mx revise_loop_mset [OF loop adx] by (auto simp: domain_of_def dom)
  ultimately show ?thesis using dom by blast
qed

lemma narrowed_revise:
  "revise (two_slots [''AB'', ''CD'']) across2 down2 narrowed =
     Inr (True, narrowed\<lparr>heap := (heap narrowed)(0 := [''AB''])\<rparr>)"
  by (simp add: revise_def ex_defs dict_get_def py_remove_def str_index_def)

theorem revise_exact_witness:
  "overlaps (two_slots [''AB'', ''CD'']) down2 down2 = None \<and>
   revise (two_slots [''AB'', ''CD'']) down2 down2 narrowed = Inr (False, narrowed) \<and>
   overlaps (two_slots [''AB'', ''CD'']) across2 down2 = Some (0, 0) \<and>
   map_of (domains narrowed) across2 = Some 0 \<and> map_of (domains narrowed) down2 = Some 1 \<and>
   list_all (\<lambda>w. 0 < length w) (heap narrowed 0) \<and> list_all (\<lambda>u. 0 < length u) (heap narrowed 1) \<and>
   revise (two_slots [''AB'', ''CD'']) across2 down2 narrowed =
     Inr (True, narrowed\<lparr>heap := (heap narrowed)(0 := [''AB''])\<rparr>)"
proof -
  have none: "overlaps (two_slots [''AB'', ''CD'']) down2 down2 = None"
    by (simp add: ex_defs)
  have some: "overlaps (two_slots [''AB'', ''CD'']) across2 down2 = Some (0, 0)"
    by (simp add: ex_defs)
  have dx: "map_of (domains narrowed) across2 = Some 0" and dy: "map_of (domains narrowed) down2 = Some 1"
    by (simp_all add: ex_defs)
  have ix: "\<forall>w \<in> set (heap narrowed 0). 0 < length w" and iy: "\<forall>u \<in> set (heap narrowed 1). 0 < length u"
    by (simp_all add: ex_defs)
  have kept: "filter (supported 0 0 (heap narrowed 1)) (heap narrowed 0) = [''AB'']"
    by (simp add: ex_defs supported_def)
  have h0: "heap narrowed 0 = [''AB'', ''CD'']" by (simp add: ex_defs)
  from revise_exact [of "two_slots [''AB'', ''CD'']" down2 down2 narrowed] none
  have r1: "revise (two_slots [''AB'', ''CD'']) down2 down2 narrowed = Inr (False, narrowed)"
    by blast
  have "revise (two_slots [''AB'', ''CD'']) across2 down2 narrowed =
     Inr (filter (supported 0 0 (heap narrowed 1)) (heap narrowed 0) \<noteq> heap narrowed 0,
          narrowed\<lparr>heap := (heap narrowed)(0 := filter (supported 0 0 (heap narrowed 1)) (heap narrowed 0))\<rparr>)"
  proof (rule revise_exact [THEN conjunct2, rule_format])
    show "overlaps (two_slots [''AB'', ''CD'']) across2 down2 = Some (0, 0) \<and>
      map_of (domains narrowed) across2 = Some 0 \<and> map_of (domains narrowed) down2 = Some 1 \<and>
      0 \<noteq> (1::nat) \<and>
      (\<forall>w \<in> set (heap narrowed 0). 0 < length w) \<and> (\<forall>u \<in> set (heap narrowed 1). 0 < length u)"
      using some dx dy ix iy by simp
  qed
  then have r2: "revise (two_slots [''AB'', ''CD'']) across2 down2 narrowed =
     Inr (True, narrowed\<lparr>heap := (heap narrowed)(0 := [''AB''])\<rparr>)"
    unfolding kept by (simp add: h0)
  from none r1 some dx dy ix iy r2 show ?thesis by (simp add: list_all_iff)
qed

theorem revise_changes_only_x_witness:
  "separate narrowed \<and>
   revise (two_slots [''AB'', ''CD'']) across2 down2 narrowed =
     Inr (True, narrowed\<lparr>heap := (heap narrowed)(0 := [''AB''])\<rparr>) \<and>
   domain_of (narrowed\<lparr>heap := (heap narrowed)(0 := [''AB''])\<rparr>) down2 = domain_of narrowed down2 \<and>
   domain_of narrowed across2 = Some [''AB'', ''CD''] \<and>
   domain_of (narrowed\<lparr>heap := (heap narrowed)(0 := [''AB''])\<rparr>) across2 = Some [''AB'']"
proof -
  have h1: "separate narrowed" by (simp add: ex_defs)
  note h2 = narrowed_revise
  from revise_changes_only_x [OF h1 h2]
  have "domain_of (narrowed\<lparr>heap := (heap narrowed)(0 := [''AB''])\<rparr>) down2 = domain_of narrowed down2"
    by (simp add: ex_defs)
  moreover have "domain_of narrowed across2 = Some [''AB'', ''CD'']"
    "domain_of (narrowed\<lparr>heap := (heap narrowed)(0 := [''AB''])\<rparr>) across2 = Some [''AB'']"
    by (simp_all add: ex_defs domain_of_def)
  ultimately show ?thesis using h1 h2 by simp
qed

subsection \<open>Arc consistency\<close>

lemma ac3_body_frame:
  assumes "ac3_body cw arc arcs s = Inr (r, arcs', s')"
  shows "domains s' = domains s \<and> fresh s' = fresh s"
  using assms
  by (auto simp: ac3_body_def split: sum.splits if_splits prod.splits dest: revise_frame)

lemma ac3_loop_frame:
  "ac3_loop cw arcs s = Inr (ok, s') \<Longrightarrow> domains s' = domains s \<and> fresh s' = fresh s"
proof (induction cw arcs s rule: ac3_loop.induct)
  case (1 cw s)
  then show ?case by simp
next
  case (2 cw arc arcs s)
  show ?case
  proof (cases "ac3_body cw arc arcs s")
    case (Inl e)
    with "2.prems" show ?thesis by simp
  next
    case (Inr t)
    obtain r arcs' s1 where t: "t = (r, arcs', s1)" by (cases t)
    from ac3_body_frame Inr t have f1: "domains s1 = domains s \<and> fresh s1 = fresh s" by blast
    show ?thesis
    proof (cases r)
      case None
      with "2.prems" Inr t have "ac3_loop cw arcs' s1 = Inr (ok, s')" by simp
      with "2.IH" [OF Inr t [symmetric] None refl] f1 show ?thesis by simp
    next
      case (Some b)
      with "2.prems" Inr t f1 show ?thesis by simp
    qed
  qed
qed

lemma ac3_body_nonempty:
  assumes "ac3_body cw arc arcs s = Inr (r, arcs', s')"
  shows "(r = Some False \<longrightarrow> has_empty_domains s') \<and> r \<noteq> Some True \<and>
     (r = None \<longrightarrow> (\<forall>ad. heap s ad \<noteq> [] \<longrightarrow> heap s' ad \<noteq> []))"
proof (cases "revise cw (fst arc) (snd arc) s")
  case (Inl e)
  with assms show ?thesis by (simp add: ac3_body_def)
next
  case (Inr t)
  obtain revised s1 where t: "t = (revised, s1)" by (cases t)
  show ?thesis
  proof (cases revised)
    case False
    with Inr t have "s1 = s" by (auto dest: revise_unrevised)
    with assms Inr t False show ?thesis by (simp add: ac3_body_def)
  next
    case True
    from Inr t True have rev: "revise cw (fst arc) (snd arc) s = Inr (True, s1)" by simp
    from revise_revised [OF rev] obtain adx where
      adx: "map_of (domains s) (fst arc) = Some adx" and
      others: "\<forall>ad. ad \<noteq> adx \<longrightarrow> heap s1 ad = heap s ad"
      by blast
    from revise_frame Inr t have dom: "domains s1 = domains s" by blast
    have get: "dict_get (domains s1) (fst arc) = Inr adx" using adx dom by (simp add: dict_get_Inr)
    show ?thesis
    proof (cases "heap s1 adx = []")
      case True
      have "(fst arc, adx) \<in> set (domains s1)" using adx dom by (simp add: map_of_SomeD)
      then have "has_empty_domains s1"
        using True by (auto simp: has_empty_domains_def list_ex_iff)
      with assms Inr t \<open>revised\<close> get True show ?thesis by (auto simp: ac3_body_def)
    next
      case False
      with assms Inr t \<open>revised\<close> get have "r = None" "s' = s1" by (simp_all add: ac3_body_def)
      moreover have "heap s1 ad \<noteq> []" if "heap s ad \<noteq> []" for ad
        using that others False by (cases "ad = adx") auto
      ultimately show ?thesis by simp
    qed
  qed
qed

lemma ac3_loop_nonempty:
  "ac3_loop cw arcs s = Inr (ok, s') \<Longrightarrow>
     (\<not> ok \<longrightarrow> has_empty_domains s') \<and> (ok \<longrightarrow> (\<forall>ad. heap s ad \<noteq> [] \<longrightarrow> heap s' ad \<noteq> []))"
proof (induction cw arcs s rule: ac3_loop.induct)
  case (1 cw s)
  then show ?case by simp
next
  case (2 cw arc arcs s)
  show ?case
  proof (cases "ac3_body cw arc arcs s")
    case (Inl e)
    with "2.prems" show ?thesis by simp
  next
    case (Inr t)
    obtain r arcs' s1 where t: "t = (r, arcs', s1)" by (cases t)
    note body = ac3_body_nonempty [OF Inr [unfolded t]]
    show ?thesis
    proof (cases r)
      case None
      with "2.prems" Inr t have "ac3_loop cw arcs' s1 = Inr (ok, s')" by simp
      with "2.IH" [OF Inr t [symmetric] None refl] body None show ?thesis by simp
    next
      case (Some b)
      with "2.prems" Inr t body show ?thesis by auto
    qed
  qed
qed

text \<open>
  What the result of \<open>ac3\<close> says of the domains: when it is \<open>False\<close>, some
  domain of the dictionary is empty; when it is \<open>True\<close>, every collection that was
  not empty at the call is not empty at the return.
\<close>

theorem ac3_result:
  assumes "ac3 cw arcs s = Inr (ok, s')"
  shows "(\<not> ok \<longrightarrow> has_empty_domains s') \<and>
     (ok \<longrightarrow> (\<forall>var ws. domain_of s var = Some ws \<and> ws \<noteq> [] \<longrightarrow>
                (\<exists>ws'. domain_of s' var = Some ws' \<and> ws' \<noteq> [])))"
proof -
  obtain q where loop: "ac3_loop cw q s = Inr (ok, s')"
    using assms by (cases arcs) (auto simp: ac3_def)
  from ac3_loop_frame [OF loop] have dom: "domains s' = domains s" by simp
  from ac3_loop_nonempty [OF loop] dom show ?thesis
    by (auto simp: domain_of_def)
qed

text \<open>
  C4 (amended): when the revision of the arc \<open>(x, y)\<close> shrinks \<open>domain(x)\<close> and
  leaves it non-empty, the loop goes on and the queue gets, at its end, the arc
  \<open>(z, x)\<close> for every neighbour \<open>z\<close> of \<open>x\<close>, the slot \<open>y\<close> included.
\<close>

theorem ac3_body_enqueues_all_neighbors:
  assumes "revise cw x y s = Inr (True, s')" "domain_of s' x = Some ws" "ws \<noteq> []"
  shows "ac3_body cw (x, y) arcs s =
     Inr (None, arcs @ map (\<lambda>neighbor. (neighbor, x)) (neighbors cw x), s')"
  using assms by (auto simp: ac3_body_def domain_of_def dict_get_def)

text \<open>
  C5: \<open>ac3\<close> can return \<open>True\<close> while a domain is empty. On the two-slot grid
  with the vocabulary \<open>CAT\<close>, node consistency empties both domains, no revision
  finds a word to remove, and \<open>ac3\<close> returns \<open>True\<close> although both domains are
  empty; its docstring says that it returns \<open>False\<close> if one or more domains end up
  empty.
\<close>

theorem ac3_true_with_empty_domains:
  "(case enforce_node_consistency (two_slots [''CAT'']) (init (two_slots [''CAT''])) of
      Inl e \<Rightarrow> False
    | Inr s \<Rightarrow>
       (case ac3 (two_slots [''CAT'']) None s of
          Inl e \<Rightarrow> False
        | Inr (ok, s') \<Rightarrow> ok \<and> has_empty_domains s' \<and> store s' = [(across2, []), (down2, [])]))"
  by code_simp

text \<open>
  As the claim C4 is written it fails: in the state \<open>narrowed\<close> the revision of the
  arc (across, down) shrinks the domain of the across slot to \<open>AB\<close>, and the queue
  then holds the arc (down, across).
\<close>

theorem ac3_requeues_reversed_arc:
  "(case revise (two_slots [''AB'', ''CD'']) across2 down2 narrowed of
      Inl e \<Rightarrow> False
    | Inr (revised, s') \<Rightarrow> revised \<and> domain_of s' across2 = Some [''AB''])
   \<and> down2 \<in> set (neighbors (two_slots [''AB'', ''CD'']) across2)
   \<and> (case ac3_body (two_slots [''AB'', ''CD'']) (across2, down2) [] narrowed of
      Inl e \<Rightarrow> False
    | Inr (r, arcs', s') \<Rightarrow> r = None \<and> arcs' = [(down2, across2)])"
  by code_simp

theorem ac3_result_witness:
  "ac3 (two_slots [''AB'', ''CD'']) None narrowed =
      Inr (True, narrowed\<lparr>heap := (heap narrowed)(0 := [''AB''])\<rparr>) \<and>
   \<not> has_empty_domains (narrowed\<lparr>heap := (heap narrowed)(0 := [''AB''])\<rparr>) \<and>
   domain_of narrowed across2 = Some [''AB'', ''CD''] \<and>
   domain_of (narrowed\<lparr>heap := (heap narrowed)(0 := [''AB''])\<rparr>) across2 = Some [''AB'']"
proof -
  have run: "ac3 (two_slots [''AB'', ''CD'']) None narrowed =
      Inr (True, narrowed\<lparr>heap := (heap narrowed)(0 := [''AB''])\<rparr>)"
    by (simp add: ac3_def all_arcs_def neighbors_def ac3_body_def revise_def ex_defs dict_get_def
        py_remove_def str_index_def)
  have "domain_of narrowed across2 = Some [''AB'', ''CD'']"
    by (simp add: ex_defs domain_of_def)
  with ac3_result [OF run] run show ?thesis
    by (simp add: ex_defs domain_of_def has_empty_domains_def)
qed

theorem ac3_body_enqueues_all_neighbors_witness:
  "revise (two_slots [''AB'', ''CD'']) across2 down2 narrowed =
     Inr (True, narrowed\<lparr>heap := (heap narrowed)(0 := [''AB''])\<rparr>) \<and>
   domain_of (narrowed\<lparr>heap := (heap narrowed)(0 := [''AB''])\<rparr>) across2 = Some [''AB''] \<and>
   ac3_body (two_slots [''AB'', ''CD'']) (across2, down2) [] narrowed =
     Inr (None, [(down2, across2)], narrowed\<lparr>heap := (heap narrowed)(0 := [''AB''])\<rparr>)"
proof -
  have d: "domain_of (narrowed\<lparr>heap := (heap narrowed)(0 := [''AB''])\<rparr>) across2 = Some [''AB'']"
    by (simp add: ex_defs domain_of_def)
  have n: "neighbors (two_slots [''AB'', ''CD'']) across2 = [down2]"
    by (simp add: ex_defs neighbors_def)
  from ac3_body_enqueues_all_neighbors [OF narrowed_revise d, of "[]"] narrowed_revise d n
  show ?thesis by simp
qed

subsection \<open>Selection of a slot\<close>

lemma smallest_domain_subset:
  "smallest_domain s vs len acc = Inr l \<Longrightarrow> set l \<subseteq> set vs \<union> set acc"
proof (induction s vs len acc rule: smallest_domain.induct)
  case (1 s len acc)
  then show ?case by simp
next
  case (2 s var rest acc)
  then show ?case by (auto split: sum.splits)
next
  case (3 s var rest m acc)
  then show ?case by (auto split: sum.splits if_splits)
qed

lemma smallest_domain_total:
  assumes "\<forall>v \<in> set vs. map_of (domains s) v \<noteq> None" "len \<noteq> None \<longrightarrow> acc \<noteq> []" "vs \<noteq> [] \<or> acc \<noteq> []"
  shows "\<exists>l. smallest_domain s vs len acc = Inr l \<and> l \<noteq> []"
  using assms
proof (induction s vs len acc rule: smallest_domain.induct)
  case (1 s len acc)
  then show ?case by simp
next
  case (2 s var rest acc)
  then obtain ad where ad: "map_of (domains s) var = Some ad" by auto
  have "\<exists>l. smallest_domain s rest (Some (length (heap s ad))) (acc @ [var]) = Inr l \<and> l \<noteq> []"
    by (rule "2.IH") (use ad "2.prems" in \<open>auto simp: dict_get_def\<close>)
  with ad show ?case by (simp add: dict_get_def)
next
  case (3 s var rest m acc)
  then obtain ad where ad: "map_of (domains s) var = Some ad" by auto
  have g: "dict_get (domains s) var = Inr ad" using ad by (simp add: dict_get_def)
  consider (less) "length (heap s ad) < m" | (eq) "length (heap s ad) = m" | (more) "m < length (heap s ad)"
    by linarith
  then show ?case
  proof cases
    case less
    have "\<exists>l. smallest_domain s rest (Some (length (heap s ad))) [var] = Inr l \<and> l \<noteq> []"
      by (rule "3.IH"(1) [OF g less]) (use "3.prems" in auto)
    with g less show ?thesis by simp
  next
    case eq
    have "\<exists>l. smallest_domain s rest (Some m) (acc @ [var]) = Inr l \<and> l \<noteq> []"
      by (rule "3.IH"(2) [OF g _ eq]) (use "3.prems" eq in auto)
    with g eq show ?thesis by simp
  next
    case more
    then have n1: "\<not> length (heap s ad) < m" and n2: "length (heap s ad) \<noteq> m" by auto
    have "\<exists>l. smallest_domain s rest (Some m) acc = Inr l \<and> l \<noteq> []"
      by (rule "3.IH"(3) [OF g n1 n2]) (use "3.prems" in auto)
    with g n1 n2 show ?thesis by simp
  qed
qed

lemma highest_degree_member:
  "highest_degree cw l h = Some v \<Longrightarrow> v \<in> set l \<union> set_option h"
  by (induction cw l h rule: highest_degree.induct) (auto split: if_splits)

lemma highest_degree_total:
  "l \<noteq> [] \<or> h \<noteq> None \<Longrightarrow> \<exists>v. highest_degree cw l h = Some v"
  by (induction cw l h rule: highest_degree.induct) auto

lemma select_unassigned_variable_member:
  assumes "select_unassigned_variable cw a s = Inr (Some v)"
  shows "v \<in> set (variables cw) \<and> v \<notin> set (map fst a)"
proof -
  let ?un = "filter (\<lambda>var. var \<notin> set (map fst a)) (variables cw)"
  from assms obtain l where l: "smallest_domain s ?un None [] = Inr l"
    and r: "(case l of [var] \<Rightarrow> Inr (Some var) | _ \<Rightarrow> Inr (highest_degree cw l None)) = (Inr (Some v) :: error + variable option)"
    by (auto simp: select_unassigned_variable_def Let_def split: if_splits sum.splits)
  from smallest_domain_subset [OF l] have sub: "set l \<subseteq> set ?un" by simp
  have "v \<in> set l"
  proof (cases l)
    case Nil
    with r show ?thesis by simp
  next
    case (Cons x xs)
    show ?thesis
    proof (cases xs)
      case Nil
      with r Cons show ?thesis by simp
    next
      case (Cons y ys)
      with r \<open>l = x # xs\<close> have "highest_degree cw l None = Some v" by simp
      from highest_degree_member [OF this] show ?thesis by simp
    qed
  qed
  with sub show ?thesis by auto
qed

lemma select_unassigned_variable_total:
  assumes "\<not> assignment_complete cw a" "\<forall>v \<in> set (variables cw). map_of (domains s) v \<noteq> None"
    "\<exists>v \<in> set (variables cw). v \<notin> set (map fst a)"
  shows "\<exists>v. select_unassigned_variable cw a s = Inr (Some v)"
proof -
  let ?un = "filter (\<lambda>var. var \<notin> set (map fst a)) (variables cw)"
  from assms(3) have ne: "?un \<noteq> []" by (auto simp: filter_empty_conv)
  have "\<exists>l. smallest_domain s ?un None [] = Inr l \<and> l \<noteq> []"
    by (rule smallest_domain_total) (use assms(2) ne in auto)
  then obtain l where l: "smallest_domain s ?un None [] = Inr l" and lne: "l \<noteq> []" by blast
  from highest_degree_total [of l None cw] lne obtain v where hv: "highest_degree cw l None = Some v"
    by auto
  show ?thesis
  proof (cases l)
    case Nil
    with lne show ?thesis by simp
  next
    case (Cons x xs)
    with assms(1) l hv show ?thesis
      by (cases xs) (auto simp: select_unassigned_variable_def Let_def)
  qed
qed


subsection \<open>A vocabulary without a fitting word\<close>

lemma init_lookup:
  assumes "distinct (variables cw)" "v \<in> set (variables cw)"
  shows "\<exists>ad. map_of (domains (init cw)) v = Some ad \<and> ad < length (variables cw)"
proof -
  from assms(2) obtain i where i: "i < length (variables cw)" "variables cw ! i = v"
    by (auto simp: in_set_conv_nth)
  have "map_of (zip (variables cw) [0 ..< length (variables cw)]) (variables cw ! i) = Some ([0 ..< length (variables cw)] ! i)"
    by (rule map_of_zip_nth) (use assms(1) i in auto)
  with i show ?thesis by (auto simp: init_def)
qed

lemma init_separate: "distinct (variables cw) \<Longrightarrow> separate (init cw)"
  by (simp add: separate_def init_def)

lemma init_keys: "fst ` set (domains (init cw)) = set (variables cw)"
proof -
  have "map fst (zip (variables cw) [0 ..< length (variables cw)]) = variables cw"
    by simp
  then have "set (map fst (domains (init cw))) = set (variables cw)"
    by (simp add: init_def)
  then show ?thesis by simp
qed

lemma ac3_loop_all_empty:
  assumes "\<forall>(x, y) \<in> set arcs. \<exists>ad. map_of (domains s) x = Some ad \<and> heap s ad = []"
  shows "ac3_loop cw arcs s = Inr (True, s)"
  using assms
proof (induction arcs)
  case Nil
  then show ?case by simp
next
  case (Cons arc arcs)
  obtain x y where arc: "arc = (x, y)" by (cases arc)
  from Cons.prems arc obtain ad where ad: "map_of (domains s) x = Some ad" "heap s ad = []"
    by auto
  have "revise cw x y s = Inr (False, s)"
    using ad by (auto simp: revise_def dict_get_def split: option.splits)
  then have "ac3_body cw arc arcs s = Inr (None, arcs, s)"
    by (simp add: ac3_body_def arc)
  moreover have "ac3_loop cw arcs s = Inr (True, s)"
    by (rule Cons.IH) (use Cons.prems in auto)
  ultimately show ?case by simp
qed

lemma all_arcs_first: "(x, y) \<in> set (all_arcs cw) \<Longrightarrow> x \<in> set (variables cw)"
  by (auto simp: all_arcs_def)

text \<open>
  C9 (amended): on a puzzle with at least one slot whose vocabulary has no word of
  the length of any slot, \<open>enforce_node_consistency\<close> empties the domain of every
  slot, and \<open>solve\<close>, started on the state that \<open>__init__\<close> builds, returns \<open>None\<close>
  for every bound on the recursion depth of at least one: it neither raises nor
  recurses.
\<close>

theorem solve_without_fitting_word:
  assumes "distinct (variables cw)" "variables cw \<noteq> []"
    "\<forall>w \<in> set (words cw). \<forall>v \<in> set (variables cw). length w \<noteq> var_length v"
  shows "\<exists>s1. enforce_node_consistency cw (init cw) = Inr s1 \<and>
     (\<forall>v \<in> set (variables cw). domain_of s1 v = Some []) \<and>
     solve (Suc depth) cw (init cw) = Some (Inr (None, [], s1))"
proof -
  have sep: "separate (init cw)" using assms(1) by (rule init_separate)
  have keys: "set (variables cw) \<subseteq> fst ` set (domains (init cw))" by (simp add: init_keys)
  from node_vars_filter [OF sep keys] obtain s1 where
    run: "node_vars (variables cw) (init cw) = Inr s1" and dom: "domains s1 = domains (init cw)" and
    hp: "\<forall>var ad. map_of (domains (init cw)) var = Some ad \<longrightarrow>
        heap s1 ad = (if var \<in> set (variables cw)
                      then filter (\<lambda>w. length w = var_length var) (heap (init cw) ad)
                      else heap (init cw) ad)"
    by blast
  have enf: "enforce_node_consistency cw (init cw) = Inr s1"
    using run by (simp add: enforce_node_consistency_def)
  have empty: "\<exists>ad. map_of (domains s1) v = Some ad \<and> heap s1 ad = []"
    if v: "v \<in> set (variables cw)" for v
  proof -
    from init_lookup [OF assms(1) v] obtain ad where
      ad: "map_of (domains (init cw)) v = Some ad" "ad < length (variables cw)" by blast
    then have "heap (init cw) ad = words cw" by (simp add: init_def)
    with hp ad v have "heap s1 ad = filter (\<lambda>w. length w = var_length v) (words cw)" by simp
    also have "\<dots> = []" using assms(3) v by (auto simp: filter_empty_conv)
    finally show ?thesis using ad dom by auto
  qed
  then have doms: "\<forall>v \<in> set (variables cw). domain_of s1 v = Some []"
    by (auto simp: domain_of_def)
  have "ac3_loop cw (all_arcs cw) s1 = Inr (True, s1)"
    by (rule ac3_loop_all_empty) (use empty in \<open>auto dest: all_arcs_first\<close>)
  then have ac: "ac3 cw None s1 = Inr (True, s1)" by (simp add: ac3_def)
  have nc: "\<not> assignment_complete cw []" using assms(2) by (simp add: assignment_complete_def)
  have "\<exists>v. select_unassigned_variable cw [] s1 = Inr (Some v)"
    by (rule select_unassigned_variable_total [OF nc]) (use empty assms(2) in \<open>auto simp: neq_Nil_conv\<close>)
  then obtain v where sel: "select_unassigned_variable cw [] s1 = Inr (Some v)" by blast
  from select_unassigned_variable_member [OF sel] have "v \<in> set (variables cw)" by simp
  from empty [OF this] have ord: "order_domain_values cw v [] s1 = Inr []"
    by (auto simp: order_domain_values_def dict_get_def)
  have "backtrack (Suc depth) cw [] s1 = Some (Inr (None, [], s1))"
    using nc sel ord by simp
  with enf ac doms show ?thesis by (simp add: solve_def)
qed

text \<open>On the grid without slots \<open>solve\<close> returns the empty assignment, not \<open>None\<close>.\<close>

theorem solve_without_slots:
  "(case solve (Suc 0) no_slots (init no_slots) of
      Some (Inr (result, a, s)) \<Rightarrow> result = Some []
    | _ \<Rightarrow> False)"
  by code_simp

lemma solve_without_slots_general:
  assumes "variables cw = []"
  shows "solve (Suc depth) cw s = Some (Inr (Some [], [], s))"
  using assms
  by (simp add: solve_def enforce_node_consistency_def ac3_def all_arcs_def assignment_complete_def)

theorem solve_without_fitting_word_witness:
  "distinct (variables (two_slots [''CAT''])) \<and> variables (two_slots [''CAT'']) \<noteq> [] \<and>
   list_all (\<lambda>w. list_all (\<lambda>v. length w \<noteq> var_length v) (variables (two_slots [''CAT''])))
     (words (two_slots [''CAT''])) \<and>
   (\<exists>s1. enforce_node_consistency (two_slots [''CAT'']) (init (two_slots [''CAT''])) = Inr s1 \<and>
      (\<forall>v \<in> set (variables (two_slots [''CAT''])). domain_of s1 v = Some []) \<and>
      solve (Suc 0) (two_slots [''CAT'']) (init (two_slots [''CAT''])) = Some (Inr (None, [], s1)))"
proof -
  have h1: "distinct (variables (two_slots [''CAT'']))" by (simp add: ex_defs)
  have h2: "variables (two_slots [''CAT'']) \<noteq> []" by (simp add: ex_defs)
  have h3: "\<forall>w \<in> set (words (two_slots [''CAT''])). \<forall>v \<in> set (variables (two_slots [''CAT''])).
      length w \<noteq> var_length v"
    by (simp add: ex_defs)
  from solve_without_fitting_word [OF h1 h2 h3, of 0] h1 h2 h3 show ?thesis
    by (simp add: list_all_iff)
qed

subsection \<open>Ordering of the candidate words\<close>

lemma count_conflicts_length:
  assumes "p < length w" "\<forall>u \<in> set ns. q < length u"
  shows "count_conflicts w p q ns c = Inr (c + length (filter (\<lambda>u. w ! p \<noteq> u ! q) ns))"
  using assms by (induction ns arbitrary: c) (auto simp: str_index_def)

lemma count_conflicts_Nil: "count_conflicts w p q [] c = Inr c"
  by simp

lemma neighbor_loop_sum:
  assumes "\<forall>n \<in> set nbs. \<exists>p q ns. overlaps cw var n = Some (p, q) \<and> domain_of s n = Some ns \<and>
      p < length w \<and> (\<forall>u \<in> set ns. q < length u)"
  shows "neighbor_loop cw s var w nbs c =
     Inr (c + sum_list (map
       (\<lambda>n. case overlaps cw var n of
              None \<Rightarrow> 0
            | Some (p, q) \<Rightarrow>
               (case domain_of s n of
                  None \<Rightarrow> 0
                | Some ns \<Rightarrow> length (filter (\<lambda>u. w ! p \<noteq> u ! q) ns))) nbs))"
  using assms
proof (induction nbs arbitrary: c)
  case Nil
  then show ?case by simp
next
  case (Cons n nbs)
  from Cons.prems obtain p q ns where
    n: "overlaps cw var n = Some (p, q)" "domain_of s n = Some ns" "p < length w"
      "\<forall>u \<in> set ns. q < length u"
    by auto
  from n(2) obtain ad where ad: "map_of (domains s) n = Some ad" "heap s ad = ns"
    by (auto simp: domain_of_def)
  have cc: "count_conflicts w p q (heap s ad) c = Inr (c + length (filter (\<lambda>u. w ! p \<noteq> u ! q) ns))"
    using count_conflicts_length [OF n(3), of ns q c] n(4) ad by simp
  have rec: "neighbor_loop cw s var w nbs (c + length (filter (\<lambda>u. w ! p \<noteq> u ! q) ns)) =
     Inr (c + length (filter (\<lambda>u. w ! p \<noteq> u ! q) ns) + sum_list (map
       (\<lambda>n. case overlaps cw var n of
              None \<Rightarrow> 0
            | Some (p, q) \<Rightarrow>
               (case domain_of s n of
                  None \<Rightarrow> 0
                | Some ns \<Rightarrow> length (filter (\<lambda>u. w ! p \<noteq> u ! q) ns))) nbs))"
    by (rule Cons.IH) (use Cons.prems in auto)
  show ?case
    using n(1,2) ad(1) cc rec by (simp add: dict_get_def)
qed

lemma word_loop_pairs:
  assumes "\<forall>w \<in> set ws. \<forall>n \<in> set (filter (\<lambda>n. n \<notin> set (map fst a)) (neighbors cw var)).
      \<exists>p q ns. overlaps cw var n = Some (p, q) \<and> domain_of s n = Some ns \<and>
      p < length w \<and> (\<forall>u \<in> set ns. q < length u)"
  shows "word_loop cw s var (filter (\<lambda>n. n \<notin> set (map fst a)) (neighbors cw var)) ws =
     Inr (map (\<lambda>w. (w, eliminated cw s var a w)) ws)"
  using assms
proof (induction ws)
  case Nil
  then show ?case by simp
next
  case (Cons w ws)
  have "neighbor_loop cw s var w (filter (\<lambda>n. n \<notin> set (map fst a)) (neighbors cw var)) 0 =
     Inr (0 + eliminated cw s var a w)"
    unfolding eliminated_def by (rule neighbor_loop_sum) (use Cons.prems in auto)
  moreover have "word_loop cw s var (filter (\<lambda>n. n \<notin> set (map fst a)) (neighbors cw var)) ws =
     Inr (map (\<lambda>w. (w, eliminated cw s var a w)) ws)"
    by (rule Cons.IH) (use Cons.prems in auto)
  ultimately show ?case by simp
qed

lemma sort_pairs:
  fixes f :: "'a \<Rightarrow> nat"
  shows "mset (map fst (sort_key snd (map (\<lambda>w. (w, f w)) ws))) = mset ws"
    and "sorted (map f (map fst (sort_key snd (map (\<lambda>w. (w, f w)) ws))))"
    and "filter (\<lambda>w. f w = k) (map fst (sort_key snd (map (\<lambda>w. (w, f w)) ws))) =
         filter (\<lambda>w. f w = k) ws"
proof -
  let ?ps = "map (\<lambda>w. (w, f w)) ws"
  let ?L = "sort_key snd ?ps"
  have inv: "\<forall>p \<in> set ?L. snd p = f (fst p)" by auto
  have "mset (map fst ?L) = image_mset fst (mset ?L)" by simp
  also have "\<dots> = image_mset fst (mset ?ps)" by simp
  also have "\<dots> = mset ws" by (simp add: image_mset.compositionality comp_def)
  finally show "mset (map fst ?L) = mset ws" .
  have eq: "map f (map fst ?L) = map snd ?L"
    unfolding map_map by (rule map_cong) (use inv in auto)
  have "sorted (map snd ?L)" by (rule sorted_sort_key)
  then show "sorted (map f (map fst ?L))" by (simp only: eq)
  have "filter (\<lambda>w. f w = k) (map fst ?L) = map fst (filter (\<lambda>p. f (fst p) = k) ?L)"
    by (simp add: filter_map comp_def)
  also have "filter (\<lambda>p. f (fst p) = k) ?L = filter (\<lambda>p. snd p = k) ?L"
    by (rule filter_cong) (use inv in auto)
  also have "\<dots> = filter (\<lambda>p. snd p = k) ?ps" by (rule sort_key_stable)
  also have "map fst \<dots> = filter (\<lambda>w. f w = k) ws"
    by (induction ws) auto
  finally show "filter (\<lambda>w. f w = k) (map fst ?L) = filter (\<lambda>w. f w = k) ws" .
qed

text \<open>
  C8: when \<open>var\<close> has a domain and every neighbour that is not assigned has an
  overlap with \<open>var\<close>, a domain, and words that reach the overlap offsets,
  \<open>order_domain_values\<close> returns the words of \<open>domain(var)\<close> (each as often as it
  occurs there), in ascending order of the count \<open>eliminated\<close>, and words of equal
  count keep the order they have in the domain.
\<close>

theorem order_domain_values_sorted:
  assumes "domain_of s var = Some ws"
    "\<forall>n \<in> set (neighbors cw var). n \<notin> set (map fst a) \<longrightarrow>
       (\<exists>p q ns. overlaps cw var n = Some (p, q) \<and> domain_of s n = Some ns \<and>
          (\<forall>w \<in> set ws. p < length w) \<and> (\<forall>u \<in> set ns. q < length u))"
  shows "\<exists>out. order_domain_values cw var a s = Inr out \<and>
     mset out = mset ws \<and>
     sorted (map (eliminated cw s var a) out) \<and>
     (\<forall>k. filter (\<lambda>w. eliminated cw s var a w = k) out =
          filter (\<lambda>w. eliminated cw s var a w = k) ws)"
proof -
  from assms(1) obtain ad where ad: "map_of (domains s) var = Some ad" "heap s ad = ws"
    by (auto simp: domain_of_def)
  have "word_loop cw s var (filter (\<lambda>n. n \<notin> set (map fst a)) (neighbors cw var)) ws =
     Inr (map (\<lambda>w. (w, eliminated cw s var a w)) ws)"
    by (rule word_loop_pairs) (use assms(2) in fastforce)
  then have "order_domain_values cw var a s =
     Inr (map fst (sort_key snd (map (\<lambda>w. (w, eliminated cw s var a w)) ws)))"
    using ad by (simp add: order_domain_values_def dict_get_def)
  then show ?thesis
    using sort_pairs [where f = "eliminated cw s var a" and ws = ws] by simp
qed

theorem order_domain_values_sorted_witness:
  "domain_of swapped across2 = Some [''CD'', ''AB''] \<and>
   neighbors (two_slots [''AB'', ''CD'']) across2 = [down2] \<and>
   overlaps (two_slots [''AB'', ''CD'']) across2 down2 = Some (0, 0) \<and>
   domain_of swapped down2 = Some [''AB''] \<and>
   order_domain_values (two_slots [''AB'', ''CD'']) across2 [] swapped = Inr [''AB'', ''CD''] \<and>
   (\<exists>out. order_domain_values (two_slots [''AB'', ''CD'']) across2 [] swapped = Inr out \<and>
      mset out = mset [''CD'', ''AB''] \<and>
      sorted (map (eliminated (two_slots [''AB'', ''CD'']) swapped across2 []) out) \<and>
      (\<forall>k. filter (\<lambda>w. eliminated (two_slots [''AB'', ''CD'']) swapped across2 [] w = k) out =
           filter (\<lambda>w. eliminated (two_slots [''AB'', ''CD'']) swapped across2 [] w = k) [''CD'', ''AB'']))"
proof -
  have h1: "domain_of swapped across2 = Some [''CD'', ''AB'']"
    by (simp add: ex_defs domain_of_def)
  have n: "neighbors (two_slots [''AB'', ''CD'']) across2 = [down2]"
    by (simp add: ex_defs neighbors_def)
  have o: "overlaps (two_slots [''AB'', ''CD'']) across2 down2 = Some (0, 0)"
    by (simp add: ex_defs)
  have d: "domain_of swapped down2 = Some [''AB'']"
    by (simp add: ex_defs domain_of_def)
  have h2: "\<forall>n \<in> set (neighbors (two_slots [''AB'', ''CD'']) across2). n \<notin> set (map fst []) \<longrightarrow>
       (\<exists>p q ns. overlaps (two_slots [''AB'', ''CD'']) across2 n = Some (p, q) \<and>
          domain_of swapped n = Some ns \<and>
          (\<forall>w \<in> set [''CD'', ''AB'']. p < length w) \<and> (\<forall>u \<in> set ns. q < length u))"
    using o d by (simp add: n)
  have run: "order_domain_values (two_slots [''AB'', ''CD'']) across2 [] swapped = Inr [''AB'', ''CD'']"
    by code_simp
  from order_domain_values_sorted [OF h1 h2] h1 n o d run show ?thesis by simp
qed

subsection \<open>Restoring after a failed branch\<close>

text \<open>
  C2: on the two-slot grid with the vocabulary \<open>AB\<close>, \<open>CD\<close>, straight after
  \<open>__init__\<close>, the call \<open>consistent({across: AB})\<close> returns \<open>True\<close> and leaves the
  domain of the down slot without \<open>CD\<close>: the copied dictionary shares its sets with
  \<open>self.domains\<close>, and \<open>revise\<close> removes words from the set itself.
\<close>

theorem consistent_leaves_pruned_domain:
  "store (init (two_slots [''AB'', ''CD''])) =
     [(across2, [''AB'', ''CD'']), (down2, [''AB'', ''CD''])] \<and>
   (case consistent (two_slots [''AB'', ''CD'']) [(across2, ''AB'')] (init (two_slots [''AB'', ''CD''])) of
      Inl e \<Rightarrow> False
    | Inr (ok, s') \<Rightarrow> ok \<and> store s' = [(across2, [''AB'', ''CD'']), (down2, [''AB''])])"
  by code_simp

text \<open>
  C3: on the same grid \<open>backtrack({})\<close> selects the across slot and returns \<open>None\<close>,
  and the dictionary of the caller then holds the last word tried for the across
  slot and for the down slot.
\<close>

theorem backtrack_failure_keeps_entries:
  "select_unassigned_variable (two_slots [''AB'', ''CD'']) [] (init (two_slots [''AB'', ''CD''])) =
     Inr (Some across2) \<and>
   (case backtrack 3 (two_slots [''AB'', ''CD'']) [] (init (two_slots [''AB'', ''CD''])) of
      Some (Inr (result, a, s)) \<Rightarrow> result = None \<and> a = [(across2, ''CD''), (down2, ''AB'')]
    | _ \<Rightarrow> False)"
  by code_simp

subsection \<open>The consistency check\<close>

lemma assign_domains_facts:
  assumes "distinct (map fst a)" "bounded s"
  shows "bounded (assign_domains a s) \<and> fresh s \<le> fresh (assign_domains a s) \<and>
     (\<forall>(v, w) \<in> set a. \<exists>ad. fresh s \<le> ad \<and> map_of (domains (assign_domains a s)) v = Some ad \<and>
        heap (assign_domains a s) ad = [w]) \<and>
     (\<forall>u. u \<notin> fst ` set a \<longrightarrow> map_of (domains (assign_domains a s)) u = map_of (domains s) u) \<and>
     (\<forall>ad. ad < fresh s \<longrightarrow> heap (assign_domains a s) ad = heap s ad) \<and>
     (\<forall>(v, w) \<in> set a. \<forall>ad u. map_of (domains (assign_domains a s)) v = Some ad \<and> u \<noteq> v \<longrightarrow>
        map_of (domains (assign_domains a s)) u \<noteq> Some ad)"
  using assms
proof (induction a arbitrary: s)
  case Nil
  then show ?case by simp
next
  case (Cons p rest)
  obtain v w where p: "p = (v, w)" by (cases p)
  let ?s1 = "s\<lparr>heap := (heap s)(fresh s := [w]),
          domains := AList.update v (fresh s) (domains s),
          fresh := Suc (fresh s)\<rparr>"
  let ?s' = "assign_domains rest ?s1"
  have s': "assign_domains (p # rest) s = ?s'" by (simp add: p)
  have d: "distinct (map fst rest)" and vnot: "v \<notin> fst ` set rest"
    using Cons.prems(1) p by auto
  have b1: "bounded ?s1"
    using Cons.prems(2) by (auto simp: bounded_def update_conv' less_Suc_eq)
  note IH = Cons.IH [OF d b1]
  from IH have B: "bounded ?s'" and F: "fresh ?s1 \<le> fresh ?s'"
    and A: "\<forall>(v', w') \<in> set rest. \<exists>ad. fresh ?s1 \<le> ad \<and> map_of (domains ?s') v' = Some ad \<and> heap ?s' ad = [w']"
    and K: "\<forall>u. u \<notin> fst ` set rest \<longrightarrow> map_of (domains ?s') u = map_of (domains ?s1) u"
    and H: "\<forall>ad. ad < fresh ?s1 \<longrightarrow> heap ?s' ad = heap ?s1 ad"
    and U: "\<forall>(v', w') \<in> set rest. \<forall>ad u. map_of (domains ?s') v' = Some ad \<and> u \<noteq> v' \<longrightarrow>
        map_of (domains ?s') u \<noteq> Some ad"
    by blast+
  have mv: "map_of (domains ?s') v = Some (fresh s)"
    using K vnot by (simp add: update_conv')
  have hv: "heap ?s' (fresh s) = [w]"
    using H by simp
  have old: "map_of (domains ?s') u = map_of (domains s) u" if "u \<notin> fst ` set (p # rest)" for u
    using that K p by (simp add: update_conv')
  have low: "heap ?s' ad = heap s ad" if "ad < fresh s" for ad
    using that H by simp
  have uniq_v: "map_of (domains ?s') u \<noteq> Some (fresh s)" if "u \<noteq> v" for u
  proof (cases "u \<in> fst ` set rest")
    case True
    then obtain w' where "(u, w') \<in> set rest" by auto
    with A obtain ad where "fresh ?s1 \<le> ad" "map_of (domains ?s') u = Some ad" by blast
    then show ?thesis by auto
  next
    case False
    with K that have "map_of (domains ?s') u = map_of (domains s) u" by (simp add: update_conv')
    with Cons.prems(2) show ?thesis by (auto simp: bounded_def)
  qed
  have c1: "bounded (assign_domains (p # rest) s)" using B s' by simp
  have c2: "fresh s \<le> fresh (assign_domains (p # rest) s)" using F s' by simp
  have c3: "\<forall>(v', w') \<in> set (p # rest). \<exists>ad. fresh s \<le> ad \<and>
      map_of (domains (assign_domains (p # rest) s)) v' = Some ad \<and>
      heap (assign_domains (p # rest) s) ad = [w']"
  proof (clarify)
    fix v' w' assume "(v', w') \<in> set (p # rest)"
    then consider "v' = v \<and> w' = w" | "(v', w') \<in> set rest" using p by auto
    then show "\<exists>ad. fresh s \<le> ad \<and> map_of (domains (assign_domains (p # rest) s)) v' = Some ad \<and>
      heap (assign_domains (p # rest) s) ad = [w']"
    proof cases
      case 1
      with mv hv s' show ?thesis by auto
    next
      case 2
      with A obtain ad where "fresh ?s1 \<le> ad" "map_of (domains ?s') v' = Some ad" "heap ?s' ad = [w']"
        by blast
      then show ?thesis unfolding s' by (intro exI [of _ ad]) simp
    qed
  qed
  have c4: "\<forall>u. u \<notin> fst ` set (p # rest) \<longrightarrow>
      map_of (domains (assign_domains (p # rest) s)) u = map_of (domains s) u"
    using old s' by simp
  have c5: "\<forall>ad. ad < fresh s \<longrightarrow> heap (assign_domains (p # rest) s) ad = heap s ad"
    using low s' by simp
  have c6: "\<forall>(v', w') \<in> set (p # rest). \<forall>ad u.
      map_of (domains (assign_domains (p # rest) s)) v' = Some ad \<and> u \<noteq> v' \<longrightarrow>
      map_of (domains (assign_domains (p # rest) s)) u \<noteq> Some ad"
  proof (clarify)
    fix v' w' ad u
    assume m: "(v', w') \<in> set (p # rest)"
      and ad: "map_of (domains (assign_domains (p # rest) s)) v' = Some ad" and ne: "u \<noteq> v'"
      and eq: "map_of (domains (assign_domains (p # rest) s)) u = Some ad"
    from m consider "v' = v" | "(v', w') \<in> set rest" using p by auto
    then show False
    proof cases
      case 1
      with ad mv s' have "ad = fresh s" by simp
      with uniq_v [of u] ne 1 eq s' show False by simp
    next
      case 2
      with U ad ne eq s' show False by auto
    qed
  qed
  from c1 c2 c3 c4 c5 c6 show ?case by blast
qed

lemma assign_domains_pinned:
  assumes "distinct (map fst a)" "bounded s"
  shows "pinned a (assign_domains a s)"
  using assign_domains_facts [OF assms] unfolding pinned_def by fastforce

lemma node_loop_shrinks:
  "node_loop var snap s = Inr s' \<Longrightarrow>
     domains s' = domains s \<and> fresh s' = fresh s \<and>
     (\<forall>ad. set (heap s' ad) \<subseteq> set (heap s ad) \<and> length (heap s' ad) \<le> length (heap s ad))"
proof (induction snap arbitrary: s)
  case Nil
  then show ?case by simp
next
  case (Cons w snap)
  show ?case
  proof (cases "length w \<noteq> var_length var")
    case False
    with Cons show ?thesis by simp
  next
    case True
    with Cons.prems obtain ad ws where
      ad: "dict_get (domains s) var = Inr ad" and ws: "py_remove w (heap s ad) = Inr ws" and
      rec: "node_loop var snap (s\<lparr>heap := (heap s)(ad := ws)\<rparr>) = Inr s'"
      by (auto split: sum.splits)
    from ws have wsd: "ws = remove1 w (heap s ad)" by (simp add: py_remove_Inr)
    have sub: "set ws \<subseteq> set (heap s ad)" unfolding wsd by (rule set_remove1_subset)
    have len: "length ws \<le> length (heap s ad)" unfolding wsd by (simp add: length_remove1)
    from Cons.IH [OF rec] have fr: "domains s' = domains s" "fresh s' = fresh s"
      and sh: "\<forall>a. set (heap s' a) \<subseteq> set (((heap s)(ad := ws)) a) \<and>
         length (heap s' a) \<le> length (((heap s)(ad := ws)) a)"
      by simp_all
    have "set (heap s' a) \<subseteq> set (heap s a) \<and> length (heap s' a) \<le> length (heap s a)" for a
    proof (cases "a = ad")
      case True
      with sh [THEN spec, of a] have "set (heap s' a) \<subseteq> set ws" "length (heap s' a) \<le> length ws"
        by simp_all
      with sub len True show ?thesis by auto
    next
      case False
      with sh [THEN spec, of a] show ?thesis by simp
    qed
    with fr show ?thesis by simp
  qed
qed

lemma node_vars_shrinks:
  "node_vars vars s = Inr s' \<Longrightarrow>
     domains s' = domains s \<and> fresh s' = fresh s \<and>
     (\<forall>ad. set (heap s' ad) \<subseteq> set (heap s ad) \<and> length (heap s' ad) \<le> length (heap s ad))"
proof (induction vars arbitrary: s)
  case Nil
  then show ?case by simp
next
  case (Cons v vars)
  from Cons.prems obtain ad s1 where
    l: "node_loop v (heap s ad) s = Inr s1" and r: "node_vars vars s1 = Inr s'"
    by (auto split: sum.splits)
  from node_loop_shrinks [OF l] Cons.IH [OF r] show ?case
    by (auto intro: order_trans)
qed

lemma enforce_node_consistency_shrinks:
  "enforce_node_consistency cw s = Inr s' \<Longrightarrow>
     domains s' = domains s \<and> fresh s' = fresh s \<and>
     (\<forall>ad. set (heap s' ad) \<subseteq> set (heap s ad) \<and> length (heap s' ad) \<le> length (heap s ad))"
  unfolding enforce_node_consistency_def by (rule node_vars_shrinks)


lemma singleton_shrinks:
  assumes "set zs \<subseteq> set [w]" "length zs \<le> length [w]" "zs \<noteq> []"
  shows "zs = [w]"
proof (cases zs)
  case Nil
  with assms(3) show ?thesis by simp
next
  case (Cons z rest)
  with assms(2) have "rest = []" by simp
  with Cons assms(1) show ?thesis by simp
qed

lemma pinned_after_node_consistency:
  assumes "pinned a s" "enforce_node_consistency cw s = Inr s'" "\<not> has_empty_domains s'"
  shows "pinned a s'"
proof -
  from enforce_node_consistency_shrinks [OF assms(2)] have dom: "domains s' = domains s"
    and sh: "\<forall>ad. set (heap s' ad) \<subseteq> set (heap s ad) \<and> length (heap s' ad) \<le> length (heap s ad)"
    by simp_all
  have "\<exists>ad. map_of (domains s') v = Some ad \<and> heap s' ad = [w] \<and>
        (\<forall>u. u \<noteq> v \<longrightarrow> map_of (domains s') u \<noteq> Some ad)"
    if "(v, w) \<in> set a" for v w
  proof -
    from assms(1) that obtain ad where ad: "map_of (domains s) v = Some ad" "heap s ad = [w]"
      "\<forall>u. u \<noteq> v \<longrightarrow> map_of (domains s) u \<noteq> Some ad"
      unfolding pinned_def by blast
    from ad(1) have "(v, ad) \<in> set (domains s')" using dom by (simp add: map_of_SomeD)
    with assms(3) have ne: "heap s' ad \<noteq> []"
      by (auto simp: has_empty_domains_def list_ex_iff)
    from sh [THEN spec, of ad] ad(2) have "set (heap s' ad) \<subseteq> set [w]" "length (heap s' ad) \<le> length [w]"
      by simp_all
    from singleton_shrinks [OF this ne] ad dom show ?thesis by auto
  qed
  then show ?thesis unfolding pinned_def by blast
qed

lemma revise_unrevised_agree:
  assumes "revise cw x y s = Inr (False, s')" "overlaps cw x y = Some (px, py)"
    "map_of (domains s) x = Some adx" "heap s adx = [wx]"
    "map_of (domains s) y = Some ady" "heap s ady = [wy]"
  shows "px < length wx \<and> py < length wy \<and> wx ! px = wy ! py"
proof -
  from assms have loop: "revise_loop x y px py [wx] False s = Inr (False, s')"
    by (simp add: revise_def dict_get_def)
  show ?thesis
  proof (cases "px < length wx \<and> py < length wy")
    case False
    with loop assms(5,6) show ?thesis
      by (auto simp: dict_get_def str_index_def split: if_splits)
  next
    case True
    show ?thesis
    proof (cases "wx ! px = wy ! py")
      case True
      with \<open>px < length wx \<and> py < length wy\<close> show ?thesis by simp
    next
      case False
      with True loop assms(3-6) show ?thesis
        by (auto simp: dict_get_def str_index_def py_remove_def split: if_splits)
    qed
  qed
qed

lemma ac3_body_pinned:
  assumes "ac3_body cw (x, y) arcs s = Inr (None, arcs', s')" "pinned a s"
  shows "pinned a s' \<and> agree cw a x y \<and> set arcs \<subseteq> set arcs'"
proof (cases "revise cw x y s")
  case (Inl e)
  with assms(1) show ?thesis by (simp add: ac3_body_def)
next
  case (Inr t)
  obtain revised s1 where t: "t = (revised, s1)" by (cases t)
  show ?thesis
  proof (cases revised)
    case False
    with Inr t have rev: "revise cw x y s = Inr (False, s1)" by simp
    then have s1: "s1 = s" by (rule revise_unrevised)
    with assms(1) Inr t False have res: "s' = s" "arcs' = arcs" by (simp_all add: ac3_body_def)
    have "agree cw a x y"
      unfolding agree_def
    proof (intro allI impI)
      fix wx wy px py
      assume h: "(x, wx) \<in> set a \<and> (y, wy) \<in> set a \<and> overlaps cw x y = Some (px, py)"
      with assms(2) obtain adx ady where
        "map_of (domains s) x = Some adx" "heap s adx = [wx]"
        "map_of (domains s) y = Some ady" "heap s ady = [wy]"
        unfolding pinned_def by blast
      with revise_unrevised_agree [OF rev] h
      show "px < length wx \<and> py < length wy \<and> wx ! px = wy ! py" by blast
    qed
    with res assms(2) show ?thesis by simp
  next
    case True
    with Inr t have rev: "revise cw x y s = Inr (True, s1)" by simp
    from revise_revised [OF rev] obtain adx where
      adx: "map_of (domains s) x = Some adx" and
      others: "\<forall>ad. ad \<noteq> adx \<longrightarrow> heap s1 ad = heap s ad" and
      less: "length (heap s1 adx) < length (heap s adx)"
      by blast
    from revise_frame [OF rev] have dom: "domains s1 = domains s" by simp
    have get: "dict_get (domains s1) x = Inr adx" using adx dom by (simp add: dict_get_Inr)
    from assms(1) rev get have ne: "heap s1 adx \<noteq> []" and res: "s' = s1"
      and q: "arcs' = arcs @ map (\<lambda>neighbor. (neighbor, x)) (neighbors cw x)"
      by (auto simp: ac3_body_def split: if_splits)
    have free: "\<not> (\<exists>w. (x, w) \<in> set a)"
    proof
      assume "\<exists>w. (x, w) \<in> set a"
      then obtain w where "(x, w) \<in> set a" ..
      with assms(2) adx have "heap s adx = [w]" unfolding pinned_def by fastforce
      with less ne show False by simp
    qed
    have "pinned a s1"
      unfolding pinned_def
    proof (clarify)
      fix v w assume m: "(v, w) \<in> set a"
      with assms(2) obtain ad where ad: "map_of (domains s) v = Some ad" "heap s ad = [w]"
        "\<forall>u. u \<noteq> v \<longrightarrow> map_of (domains s) u \<noteq> Some ad"
        unfolding pinned_def by blast
      from m free have "x \<noteq> v" by auto
      with ad(3) adx have "ad \<noteq> adx" by auto
      with others ad dom
      show "\<exists>ad. map_of (domains s1) v = Some ad \<and> heap s1 ad = [w] \<and>
        (\<forall>u. u \<noteq> v \<longrightarrow> map_of (domains s1) u \<noteq> Some ad)"
        by auto
    qed
    moreover have "agree cw a x y" using free unfolding agree_def by blast
    ultimately show ?thesis using res q by simp
  qed
qed

lemma ac3_loop_pinned:
  "ac3_loop cw arcs s = Inr (True, s') \<Longrightarrow> pinned a s \<Longrightarrow>
     pinned a s' \<and> (\<forall>(x, y) \<in> set arcs. agree cw a x y)"
proof (induction cw arcs s rule: ac3_loop.induct)
  case (1 cw s)
  then show ?case by simp
next
  case (2 cw arc arcs s)
  obtain x y where arc: "arc = (x, y)" by (cases arc)
  show ?case
  proof (cases "ac3_body cw arc arcs s")
    case (Inl e)
    with "2.prems" show ?thesis by simp
  next
    case (Inr t)
    obtain r arcs' s1 where t: "t = (r, arcs', s1)" by (cases t)
    show ?thesis
    proof (cases r)
      case (Some b)
      with "2.prems"(1) Inr t have "b = True" by simp
      with ac3_body_nonempty [OF Inr [unfolded t]] Some show ?thesis by simp
    next
      case None
      with "2.prems"(1) Inr t have loop: "ac3_loop cw arcs' s1 = Inr (True, s')" by simp
      from Inr t None arc have body: "ac3_body cw (x, y) arcs s = Inr (None, arcs', s1)" by simp
      from ac3_body_pinned [OF body "2.prems"(2)] have
        p1: "pinned a s1" and ag: "agree cw a x y" and sub: "set arcs \<subseteq> set arcs'"
        by simp_all
      from "2.IH" [OF Inr t [symmetric] None refl loop p1] have
        "pinned a s'" "\<forall>(x, y) \<in> set arcs'. agree cw a x y" by simp_all
      with ag sub arc show ?thesis by auto
    qed
  qed
qed

lemma count_list_distinct:
  "\<forall>w \<in> set xs. count_list xs w \<le> 1 \<Longrightarrow> distinct xs"
proof (induction xs)
  case Nil
  then show ?case by simp
next
  case (Cons x xs)
  from Cons.prems have "count_list xs x = 0" by simp
  then have "x \<notin> set xs" by (simp add: count_list_0_iff)
  moreover have "\<forall>w \<in> set xs. count_list xs w \<le> 1"
  proof
    fix w assume "w \<in> set xs"
    with Cons.prems have "count_list (x # xs) w \<le> 1" by simp
    then show "count_list xs w \<le> 1" by (simp split: if_splits)
  qed
  ultimately show ?case using Cons.IH by simp
qed

lemma no_duplicates_distinct:
  assumes "\<not> assignment_has_duplicates a"
  shows "distinct (map snd a)"
proof (rule count_list_distinct, rule ballI)
  fix w assume "w \<in> set (map snd a)"
  then obtain v where "(v, w) \<in> set a" by auto
  with assms show "count_list (map snd a) w \<le> 1"
    by (auto simp: assignment_has_duplicates_def list_ex_iff not_less)
qed

lemma ac3_frame:
  "ac3 cw arcs s = Inr (ok, s') \<Longrightarrow> domains s' = domains s \<and> fresh s' = fresh s"
  by (cases arcs) (auto simp: ac3_def dest: ac3_loop_frame)

lemma consistent_frame:
  assumes "consistent cw a s = Inr (ok, s')"
  shows "domains s' = domains s \<and> fresh s \<le> fresh s'"
proof (cases "assignment_has_duplicates a")
  case True
  with assms show ?thesis by (simp add: consistent_def)
next
  case False
  have fr: "fresh s \<le> fresh (assign_domains a t)" if "fresh s \<le> fresh t" for t
    using that by (induction a arbitrary: t) auto
  from assms False obtain s2 where
    enf: "enforce_node_consistency cw (assign_domains a s) = Inr s2"
    by (auto simp: consistent_def Let_def split: sum.splits)
  from enforce_node_consistency_shrinks [OF enf] have f2: "fresh s2 = fresh (assign_domains a s)"
    by simp
  show ?thesis
  proof (cases "has_empty_domains s2")
    case True
    with assms False enf f2 fr [of s] show ?thesis by (auto simp: consistent_def Let_def)
  next
    case False
    with assms \<open>\<not> assignment_has_duplicates a\<close> enf obtain ok3 s3 where
      ac: "ac3 cw None s2 = Inr (ok3, s3)" and s': "s' = s3\<lparr>domains := domains s\<rparr>"
      by (auto simp: consistent_def Let_def split: sum.splits if_splits)
    from ac3_frame [OF ac] f2 fr [of s] s' show ?thesis by simp
  qed
qed

lemma consistent_checked:
  assumes "consistent cw a s = Inr (True, s')" "distinct (map fst a)" "bounded s"
  shows "\<not> assignment_has_duplicates a \<and> (\<forall>(x, y) \<in> set (all_arcs cw). agree cw a x y)"
proof -
  from assms(1) have nd: "\<not> assignment_has_duplicates a"
    by (auto simp: consistent_def split: if_splits)
  with assms(1) obtain s2 where
    enf: "enforce_node_consistency cw (assign_domains a s) = Inr s2"
    by (auto simp: consistent_def Let_def split: sum.splits)
  with assms(1) nd have ne: "\<not> has_empty_domains s2"
    by (auto simp: consistent_def Let_def split: if_splits)
  with assms(1) nd enf obtain s3 where ac: "ac3 cw None s2 = Inr (True, s3)"
    by (auto simp: consistent_def Let_def split: sum.splits if_splits)
  have "pinned a (assign_domains a s)" using assms(2,3) by (rule assign_domains_pinned)
  from pinned_after_node_consistency [OF this enf ne] have "pinned a s2" .
  with ac3_loop_pinned [of cw "all_arcs cw" s2 s3 a] ac
  have "\<forall>(x, y) \<in> set (all_arcs cw). agree cw a x y" by (simp add: ac3_def)
  with nd show ?thesis by simp
qed

subsection \<open>Soundness of the search\<close>

lemma bounded_mono:
  assumes "bounded s" "domains s' = domains s" "fresh s \<le> fresh s'"
  shows "bounded s'"
  unfolding bounded_def
proof (intro allI impI)
  fix u ad assume "map_of (domains s') u = Some ad"
  with assms(1,2) have "ad < fresh s" by (simp add: bounded_def)
  with assms(3) show "ad < fresh s'" by simp
qed

lemma update_partial:
  assumes "distinct (map fst a)" "set (map fst a) \<subseteq> set (variables cw)" "v \<in> set (variables cw)"
  shows "distinct (map fst (AList.update v w a)) \<and>
     set (map fst (AList.update v w a)) \<subseteq> set (variables cw)"
  using assms by (auto simp: distinct_update dom_update)

lemma backtrack_words_sound:
  assumes IH: "\<And>a s res a' s'. distinct (map fst a) \<Longrightarrow> set (map fst a) \<subseteq> set (variables cw) \<Longrightarrow>
      bounded s \<Longrightarrow> backtrack depth cw a s = Some (Inr (res, a', s')) \<Longrightarrow>
      domains s' = domains s \<and> fresh s \<le> fresh s' \<and>
      distinct (map fst a') \<and> set (map fst a') \<subseteq> set (variables cw) \<and>
      (\<forall>r. res = Some r \<longrightarrow> (r = a \<and> assignment_complete cw a) \<or> checked cw r)"
  shows "distinct (map fst a) \<Longrightarrow> set (map fst a) \<subseteq> set (variables cw) \<Longrightarrow> bounded s \<Longrightarrow>
      var \<in> set (variables cw) \<Longrightarrow>
      backtrack_words depth cw var ws a s = Some (Inr (res, a', s')) \<Longrightarrow>
      domains s' = domains s \<and> fresh s \<le> fresh s' \<and>
      distinct (map fst a') \<and> set (map fst a') \<subseteq> set (variables cw) \<and>
      (\<forall>r. res = Some r \<longrightarrow> checked cw r)"
proof (induction ws arbitrary: a s)
  case Nil
  then show ?case by simp
next
  case (Cons w ws)
  let ?a1 = "AList.update var w a"
  from update_partial [OF Cons.prems(1,2,4)] have
    d1: "distinct (map fst ?a1)" and k1: "set (map fst ?a1) \<subseteq> set (variables cw)" by simp_all
  from Cons.prems(5) obtain ok s1 where con: "consistent cw ?a1 s = Inr (ok, s1)"
    by (auto simp: Let_def split: sum.splits)
  from consistent_frame [OF con] have f1: "domains s1 = domains s" "fresh s \<le> fresh s1" by simp_all
  have b1: "bounded s1" using Cons.prems(3) f1 by (rule bounded_mono)
  show ?case
  proof (cases ok)
    case False
    with Cons.prems(5) con have "backtrack_words depth cw var ws ?a1 s1 = Some (Inr (res, a', s'))"
      by (simp add: Let_def)
    from Cons.IH [OF d1 k1 b1 Cons.prems(4) this] f1 show ?thesis by auto
  next
    case True
    with con have con': "consistent cw ?a1 s = Inr (True, s1)" by simp
    from consistent_checked [OF con' d1 Cons.prems(3)] have
      nd: "\<not> assignment_has_duplicates ?a1" and ag: "\<forall>(x, y) \<in> set (all_arcs cw). agree cw ?a1 x y"
      by simp_all
    from Cons.prems(5) con True obtain s2 where enf: "enforce_node_consistency cw s1 = Inr s2"
      by (auto simp: Let_def split: sum.splits)
    from Cons.prems(5) con True enf obtain ok3 s3 where ac: "ac3 cw None s2 = Inr (ok3, s3)"
      by (auto simp: Let_def split: sum.splits)
    from enforce_node_consistency_shrinks [OF enf] ac3_frame [OF ac] have
      f3: "domains s3 = domains s1" "fresh s3 = fresh s1" by simp_all
    have b3: "bounded s3" using b1 f3 by (auto intro: bounded_mono)
    from Cons.prems(5) con True enf ac obtain res4 a4 s4 where
      bt: "backtrack depth cw ?a1 s3 = Some (Inr (res4, a4, s4))"
      by (auto simp: Let_def split: sum.splits option.splits)
    from IH [OF d1 k1 b3 bt] have
      f4: "domains s4 = domains s3" "fresh s3 \<le> fresh s4" and
      d4: "distinct (map fst a4)" and k4: "set (map fst a4) \<subseteq> set (variables cw)" and
      r4: "\<forall>r. res4 = Some r \<longrightarrow> (r = ?a1 \<and> assignment_complete cw ?a1) \<or> checked cw r"
      by simp_all
    show ?thesis
    proof (cases res4)
      case (Some r)
      with Cons.prems(5) con True enf ac bt have res: "res = Some r" "a' = a4" "s' = s4"
        by (simp_all add: Let_def)
      have "checked cw r"
      proof (cases "checked cw r")
        case True
        then show ?thesis .
      next
        case False
        with r4 Some have "r = ?a1" "assignment_complete cw ?a1" by auto
        with d1 k1 nd ag show ?thesis
          by (simp add: checked_def assignment_complete_def no_duplicates_distinct)
      qed
      with res f4 f3 f1 d4 k4 show ?thesis by simp
    next
      case None
      let ?s5 = "s4\<lparr>domains := domains s1\<rparr>"
      from None Cons.prems(5) con True enf ac bt have
        rec: "backtrack_words depth cw var ws a4 ?s5 = Some (Inr (res, a', s'))"
        by (simp add: Let_def)
      have b5: "bounded ?s5" using b1 f3 f4 by (auto intro: bounded_mono)
      from Cons.IH [OF d4 k4 b5 Cons.prems(4) rec] f1 f3 f4 show ?thesis by auto
    qed
  qed
qed

lemma backtrack_sound:
  "distinct (map fst a) \<Longrightarrow> set (map fst a) \<subseteq> set (variables cw) \<Longrightarrow> bounded s \<Longrightarrow>
     backtrack depth cw a s = Some (Inr (res, a', s')) \<Longrightarrow>
     domains s' = domains s \<and> fresh s \<le> fresh s' \<and>
     distinct (map fst a') \<and> set (map fst a') \<subseteq> set (variables cw) \<and>
     (\<forall>r. res = Some r \<longrightarrow> (r = a \<and> assignment_complete cw a) \<or> checked cw r)"
proof (induction depth arbitrary: a s res a' s')
  case 0
  then show ?case by simp
next
  case (Suc depth)
  show ?case
  proof (cases "assignment_complete cw a")
    case True
    with Suc.prems show ?thesis by auto
  next
    case False
    with Suc.prems(4) obtain var ws where
      sel: "select_unassigned_variable cw a s = Inr (Some var)" and
      words: "backtrack_words depth cw var ws a s = Some (Inr (res, a', s'))"
      by (auto split: sum.splits option.splits)
    from select_unassigned_variable_member [OF sel] have v: "var \<in> set (variables cw)" by simp
    have "domains s' = domains s \<and> fresh s \<le> fresh s' \<and>
      distinct (map fst a') \<and> set (map fst a') \<subseteq> set (variables cw) \<and>
      (\<forall>r. res = Some r \<longrightarrow> checked cw r)"
      by (rule backtrack_words_sound [OF Suc.IH Suc.prems(1,2,3) v words])
    then show ?thesis by simp
  qed
qed

lemma checked_solution:
  assumes "distinct (variables cw)" "checked cw r"
  shows "solution cw r"
proof -
  from assms(2) have len: "length r = length (variables cw)" and dk: "distinct (map fst r)"
    and sub: "set (map fst r) \<subseteq> set (variables cw)" and dw: "distinct (map snd r)"
    and ag: "\<forall>(x, y) \<in> set (all_arcs cw). agree cw r x y"
    by (simp_all add: checked_def)
  have "card (set (map fst r)) = length (map fst r)" using dk by (rule distinct_card)
  moreover have "card (set (variables cw)) = length (variables cw)" using assms(1) by (rule distinct_card)
  ultimately have "card (set (map fst r)) = card (set (variables cw))"
    using len by simp
  with sub have keys: "set (map fst r) = set (variables cw)"
    by (simp add: card_subset_eq)
  have all: "map_of r v \<noteq> None" if "v \<in> set (variables cw)" for v
    using that keys by (simp add: map_of_eq_None_iff)
  have ov: "px < length wx \<and> py < length wy \<and> wx ! px = wy ! py"
    if "x \<in> set (variables cw)" "y \<in> set (neighbors cw x)"
      "map_of r x = Some wx \<and> map_of r y = Some wy \<and> overlaps cw x y = Some (px, py)"
    for x y wx wy px py
  proof -
    from that(1,2) have "(x, y) \<in> set (all_arcs cw)" by (auto simp: all_arcs_def)
    with ag have "agree cw r x y" by auto
    moreover from that(3) have "(x, wx) \<in> set r" "(y, wy) \<in> set r" by (auto dest: map_of_SomeD)
    ultimately show ?thesis using that(3) unfolding agree_def by blast
  qed
  from len all dw ov show ?thesis
    unfolding solution_def assignment_complete_def by blast
qed

lemma init_bounded: "distinct (variables cw) \<Longrightarrow> bounded (init cw)"
  unfolding bounded_def
proof (intro allI impI)
  fix u ad assume d: "distinct (variables cw)" and m: "map_of (domains (init cw)) u = Some ad"
  from m have "(u, ad) \<in> set (zip (variables cw) [0 ..< length (variables cw)])"
    by (auto simp: init_def dest: map_of_SomeD)
  then have "ad \<in> set [0 ..< length (variables cw)]" by (rule set_zip_rightD)
  then show "ad < fresh (init cw)" by (simp add: init_def)
qed

text \<open>The same for \<open>solve\<close>, which calls \<open>backtrack\<close> on the empty assignment.\<close>

lemma solve_returns_solution:
  assumes "distinct (variables cw)" "bounded s" "solve depth cw s = Some (Inr (Some r, a', s'))"
  shows "solution cw r"
proof -
  from assms(3) obtain s1 ok s2 where
    enf: "enforce_node_consistency cw s = Inr s1" and ac: "ac3 cw None s1 = Inr (ok, s2)" and
    bt: "backtrack depth cw [] s2 = Some (Inr (Some r, a', s'))"
    by (auto simp: solve_def split: sum.splits)
  from enforce_node_consistency_shrinks [OF enf] ac3_frame [OF ac] assms(2) have b2: "bounded s2"
    by (auto intro: bounded_mono)
  from backtrack_sound [OF _ _ b2 bt] have "(r = [] \<and> assignment_complete cw []) \<or> checked cw r"
    by simp
  then show ?thesis
  proof
    assume "r = [] \<and> assignment_complete cw []"
    then show ?thesis by (simp add: solution_def assignment_complete_def)
  next
    assume "checked cw r"
    with assms(1) show ?thesis by (rule checked_solution)
  qed
qed

text \<open>
  C1 (amended): let the slots be a set, and let every reference of the dictionary be
  allocated. Every assignment that \<open>backtrack\<close> returns, for every bound on the
  recursion depth, when it is called on an assignment of slots that is not complete
  (or is a solution already), is a solution: it is complete, its words are pairwise
  distinct, and the words of neighbouring slots agree at the recorded overlap. So is
  every assignment that \<open>solve\<close> returns.
\<close>

theorem backtrack_returns_solution:
  assumes "distinct (variables cw)" "bounded s"
  shows "(distinct (map fst a) \<and> set (map fst a) \<subseteq> set (variables cw) \<and>
          (assignment_complete cw a \<longrightarrow> solution cw a) \<and>
          backtrack depth cw a s = Some (Inr (Some r, a', s')) \<longrightarrow>
          solution cw r) \<and>
         (solve depth cw s = Some (Inr (Some r, a', s')) \<longrightarrow> solution cw r)"
proof (intro conjI impI)
  assume h: "distinct (map fst a) \<and> set (map fst a) \<subseteq> set (variables cw) \<and>
          (assignment_complete cw a \<longrightarrow> solution cw a) \<and>
          backtrack depth cw a s = Some (Inr (Some r, a', s'))"
  then have run: "backtrack depth cw a s = Some (Inr (Some r, a', s'))"
    and d: "distinct (map fst a)" and k: "set (map fst a) \<subseteq> set (variables cw)"
    by simp_all
  from backtrack_sound [OF d k assms(2) run] have "(r = a \<and> assignment_complete cw a) \<or> checked cw r"
    by simp
  then show "solution cw r"
  proof
    assume "r = a \<and> assignment_complete cw a"
    with h show ?thesis by simp
  next
    assume "checked cw r"
    with assms(1) show ?thesis by (rule checked_solution)
  qed
next
  assume "solve depth cw s = Some (Inr (Some r, a', s'))"
  with assms show "solution cw r" by (rule solve_returns_solution)
qed

text \<open>
  As the claim C1 is written it fails: \<open>backtrack\<close> returns an assignment that is
  complete when it is called without any check. On the two-slot grid, called on
  \<open>{across: AB, down: CD}\<close>, it returns this assignment, whose words differ in the
  shared first cell.
\<close>

theorem backtrack_returns_complete_input:
  "distinct (map fst [(across2, ''AB''), (down2, ''CD'')]) \<and>
   set (map fst [(across2, ''AB''), (down2, ''CD'')]) \<subseteq> set (variables (two_slots [''AB'', ''CD''])) \<and>
   bounded (init (two_slots [''AB'', ''CD''])) \<and>
   (case backtrack 1 (two_slots [''AB'', ''CD'']) [(across2, ''AB''), (down2, ''CD'')]
           (init (two_slots [''AB'', ''CD''])) of
      Some (Inr (Some r, a', s')) \<Rightarrow> r = [(across2, ''AB''), (down2, ''CD'')]
    | _ \<Rightarrow> False) \<and>
   \<not> solution (two_slots [''AB'', ''CD'']) [(across2, ''AB''), (down2, ''CD'')]"
proof -
  let ?cw = "two_slots [''AB'', ''CD'']"
  let ?a = "[(across2, ''AB''), (down2, ''CD'')]"
  have k: "distinct (map fst ?a)" "set (map fst ?a) \<subseteq> set (variables ?cw)"
    by (simp_all add: ex_defs)
  have b: "bounded (init ?cw)" by (rule init_bounded) (simp add: ex_defs)
  have run: "(case backtrack 1 ?cw ?a (init ?cw) of
      Some (Inr (Some r, a', s')) \<Rightarrow> r = ?a
    | _ \<Rightarrow> False)"
    by code_simp
  have "\<not> solution ?cw ?a"
  proof
    assume "solution ?cw ?a"
    then have "\<forall>x \<in> set (variables ?cw). \<forall>y \<in> set (neighbors ?cw x). \<forall>wx wy px py.
         map_of ?a x = Some wx \<and> map_of ?a y = Some wy \<and> overlaps ?cw x y = Some (px, py) \<longrightarrow>
         px < length wx \<and> py < length wy \<and> wx ! px = wy ! py"
      unfolding solution_def by blast
    moreover have "across2 \<in> set (variables ?cw)" "down2 \<in> set (neighbors ?cw across2)"
      by (simp_all add: ex_defs neighbors_def)
    moreover have "map_of ?a across2 = Some ''AB'' \<and> map_of ?a down2 = Some ''CD'' \<and>
        overlaps ?cw across2 down2 = Some (0, 0)"
      by (simp add: ex_defs)
    ultimately have "''AB'' ! 0 = ''CD'' ! 0" by blast
    then show False by simp
  qed
  with k b run show ?thesis by simp
qed

lemma three_words_run:
  "(case backtrack 3 (two_slots [''AB'', ''AD'', ''XY'']) [] (init (two_slots [''AB'', ''AD'', ''XY''])) of
      Some (Inr (Some r, a', s')) \<Rightarrow> r = [(across2, ''AB''), (down2, ''AD'')]
    | _ \<Rightarrow> False)"
  by code_simp

lemma three_words_solve:
  "(case solve 3 (two_slots [''AB'', ''AD'', ''XY'']) (init (two_slots [''AB'', ''AD'', ''XY''])) of
      Some (Inr (Some r, a', s')) \<Rightarrow> r = [(across2, ''AB''), (down2, ''AD'')]
    | _ \<Rightarrow> False)"
  by code_simp

theorem backtrack_returns_solution_witness:
  "distinct (variables (two_slots [''AB'', ''AD'', ''XY''])) \<and>
   bounded (init (two_slots [''AB'', ''AD'', ''XY''])) \<and>
   distinct (map fst ([] :: assignment)) \<and>
   set (map fst ([] :: assignment)) \<subseteq> set (variables (two_slots [''AB'', ''AD'', ''XY''])) \<and>
   \<not> assignment_complete (two_slots [''AB'', ''AD'', ''XY'']) [] \<and>
   (\<exists>a' s'. backtrack 3 (two_slots [''AB'', ''AD'', ''XY'']) [] (init (two_slots [''AB'', ''AD'', ''XY''])) =
      Some (Inr (Some [(across2, ''AB''), (down2, ''AD'')], a', s'))) \<and>
   (\<exists>a' s'. solve 3 (two_slots [''AB'', ''AD'', ''XY'']) (init (two_slots [''AB'', ''AD'', ''XY''])) =
      Some (Inr (Some [(across2, ''AB''), (down2, ''AD'')], a', s'))) \<and>
   solution (two_slots [''AB'', ''AD'', ''XY'']) [(across2, ''AB''), (down2, ''AD'')]"
proof -
  let ?cw = "two_slots [''AB'', ''AD'', ''XY'']"
  have h1: "distinct (variables ?cw)" by (simp add: ex_defs)
  have h2: "bounded (init ?cw)" using h1 by (rule init_bounded)
  have h3: "\<not> assignment_complete ?cw []" by (simp add: ex_defs assignment_complete_def)
  from three_words_run obtain a' s' where
    run: "backtrack 3 ?cw [] (init ?cw) = Some (Inr (Some [(across2, ''AB''), (down2, ''AD'')], a', s'))"
    by (auto split: option.splits sum.splits)
  from three_words_solve obtain a2 s2 where
    run2: "solve 3 ?cw (init ?cw) = Some (Inr (Some [(across2, ''AB''), (down2, ''AD'')], a2, s2))"
    by (auto split: option.splits sum.splits)
  have "solution ?cw [(across2, ''AB''), (down2, ''AD'')]"
    using backtrack_returns_solution [OF h1 h2, of "[]" 3 "[(across2, ''AB''), (down2, ''AD'')]" a' s']
      h3 run by simp
  with h1 h2 h3 run run2 show ?thesis by auto
qed

text \<open>
  With an overlap index that is symmetric, a solution agrees at the overlap of every
  two distinct slots.
\<close>

lemma solution_all_overlaps:
  assumes "solution cw r"
    "\<forall>x \<in> set (variables cw). \<forall>y \<in> set (variables cw). overlaps cw x y \<noteq> None \<longrightarrow> overlaps cw y x \<noteq> None"
    "x \<in> set (variables cw)" "y \<in> set (variables cw)" "x \<noteq> y"
    "overlaps cw x y = Some (px, py)" "map_of r x = Some wx" "map_of r y = Some wy"
  shows "px < length wx \<and> py < length wy \<and> wx ! px = wy ! py"
proof -
  from assms(2,3,4,6) have "overlaps cw y x \<noteq> None" by auto
  with assms(4,5) have "y \<in> set (neighbors cw x)" by (simp add: neighbors_def)
  with assms(1,3,6,7,8) show ?thesis unfolding solution_def by blast
qed

subsection \<open>Depth of the recursion\<close>

text \<open>
  Every recursive call of \<open>backtrack\<close> has assigned one more slot, and the keys of
  the caller's dictionary only grow: a depth above the number of open slots is enough
  for the call to return.
\<close>

lemma unassigned_mono:
  assumes "fst ` set a \<subseteq> fst ` set b"
  shows "unassigned cw b \<le> unassigned cw a"
proof -
  have "filter (\<lambda>var. var \<notin> set (map fst b)) (variables cw) =
        filter (\<lambda>var. var \<notin> set (map fst b)) (filter (\<lambda>var. var \<notin> set (map fst a)) (variables cw))"
    unfolding filter_filter by (rule filter_cong) (use assms in auto)
  then show ?thesis
    unfolding unassigned_def by (metis length_filter_le)
qed

lemma unassigned_less:
  assumes "fst ` set a \<subseteq> fst ` set b" "var \<in> set (variables cw)" "var \<notin> fst ` set a"
    "var \<in> fst ` set b"
  shows "unassigned cw b < unassigned cw a"
proof -
  let ?A = "filter (\<lambda>var. var \<notin> set (map fst a)) (variables cw)"
  have eq: "filter (\<lambda>var. var \<notin> set (map fst b)) (variables cw) =
        filter (\<lambda>var. var \<notin> set (map fst b)) ?A"
    unfolding filter_filter by (rule filter_cong) (use assms(1) in auto)
  have "var \<in> set ?A" using assms(2,3) by simp
  moreover have "\<not> var \<notin> set (map fst b)" using assms(4) by simp
  ultimately have "length (filter (\<lambda>var. var \<notin> set (map fst b)) ?A) < length ?A"
    by (rule length_filter_less)
  with eq show ?thesis unfolding unassigned_def by simp
qed

lemma backtrack_words_keys:
  assumes IH: "\<And>a s res a' s'. backtrack depth cw a s = Some (Inr (res, a', s')) \<Longrightarrow>
      fst ` set a \<subseteq> fst ` set a'"
  shows "backtrack_words depth cw var ws a s = Some (Inr (res, a', s')) \<Longrightarrow>
     fst ` set a \<subseteq> fst ` set a'"
proof (induction ws arbitrary: a s)
  case Nil
  then show ?case by simp
next
  case (Cons w ws)
  let ?a1 = "AList.update var w a"
  have k1: "fst ` set a \<subseteq> fst ` set ?a1" by (auto simp: dom_update)
  from Cons.prems obtain ok s1 where con: "consistent cw ?a1 s = Inr (ok, s1)"
    by (auto simp: Let_def split: sum.splits)
  show ?case
  proof (cases ok)
    case False
    with Cons.prems con have rec: "backtrack_words depth cw var ws ?a1 s1 = Some (Inr (res, a', s'))"
      by (simp add: Let_def)
    from Cons.IH [OF rec] k1 show ?thesis by blast
  next
    case True
    from Cons.prems con True obtain s2 where enf: "enforce_node_consistency cw s1 = Inr s2"
      by (auto simp: Let_def split: sum.splits)
    from Cons.prems con True enf obtain ok3 s3 where ac: "ac3 cw None s2 = Inr (ok3, s3)"
      by (auto simp: Let_def split: sum.splits)
    from Cons.prems con True enf ac obtain res4 a4 s4 where
      bt: "backtrack depth cw ?a1 s3 = Some (Inr (res4, a4, s4))"
      by (auto simp: Let_def split: sum.splits option.splits)
    from IH [OF bt] have k4: "fst ` set ?a1 \<subseteq> fst ` set a4" .
    show ?thesis
    proof (cases res4)
      case (Some r)
      with Cons.prems con True enf ac bt have "a' = a4"
        by (simp add: Let_def)
      with k1 k4 show ?thesis by blast
    next
      case None
      with Cons.prems con True enf ac bt have
        rec: "backtrack_words depth cw var ws a4 (s4\<lparr>domains := domains s1\<rparr>) = Some (Inr (res, a', s'))"
        by (simp add: Let_def)
      from Cons.IH [OF rec] k1 k4 show ?thesis by blast
    qed
  qed
qed

lemma backtrack_keys:
  "backtrack depth cw a s = Some (Inr (res, a', s')) \<Longrightarrow> fst ` set a \<subseteq> fst ` set a'"
proof (induction depth arbitrary: a s res a' s')
  case 0
  then show ?case by simp
next
  case (Suc depth)
  show ?case
  proof (cases "assignment_complete cw a")
    case True
    with Suc.prems show ?thesis by auto
  next
    case False
    with Suc.prems obtain var ws where
      words: "backtrack_words depth cw var ws a s = Some (Inr (res, a', s'))"
      by (auto split: sum.splits option.splits)
    show ?thesis by (rule backtrack_words_keys [OF Suc.IH words])
  qed
qed

lemma backtrack_words_returns:
  assumes IH: "\<And>a s. unassigned cw a < depth \<Longrightarrow> backtrack depth cw a s \<noteq> None"
  shows "\<forall>w. unassigned cw (AList.update var w a) < depth \<Longrightarrow>
     backtrack_words depth cw var ws a s \<noteq> None"
proof (induction ws arbitrary: a s)
  case Nil
  then show ?case by simp
next
  case (Cons w ws)
  let ?a1 = "AList.update var w a"
  have u1: "unassigned cw ?a1 < depth" using Cons.prems by simp
  have inv1: "\<forall>w'. unassigned cw (AList.update var w' ?a1) < depth"
  proof
    fix w'
    have "fst ` set ?a1 \<subseteq> fst ` set (AList.update var w' ?a1)" by (auto simp: dom_update)
    from unassigned_mono [OF this, of cw] u1 show "unassigned cw (AList.update var w' ?a1) < depth" by simp
  qed
  show ?case
  proof (cases "consistent cw ?a1 s")
    case (Inl e)
    then show ?thesis by (simp add: Let_def)
  next
    case (Inr t)
    obtain ok s1 where t: "t = (ok, s1)" by (cases t)
    show ?thesis
    proof (cases ok)
      case False
      with Inr t Cons.IH [OF inv1, of s1] show ?thesis by (simp add: Let_def)
    next
      case True
      show ?thesis
      proof (cases "enforce_node_consistency cw s1")
        case (Inl e)
        with Inr t True show ?thesis by (simp add: Let_def)
      next
        case enf: (Inr s2)
        show ?thesis
        proof (cases "ac3 cw None s2")
          case (Inl e)
          with Inr t True enf show ?thesis by (simp add: Let_def)
        next
          case ac: (Inr t3)
          obtain ok3 s3 where t3: "t3 = (ok3, s3)" by (cases t3)
          from IH [OF u1, of s3] obtain out where bt: "backtrack depth cw ?a1 s3 = Some out" by auto
          show ?thesis
          proof (cases out)
            case (Inl e)
            with Inr t True enf ac t3 bt show ?thesis by (simp add: Let_def)
          next
            case out: (Inr t4)
            obtain res4 a4 s4 where t4: "t4 = (res4, a4, s4)" by (cases t4)
            show ?thesis
            proof (cases res4)
              case (Some r)
              with Inr t True enf ac t3 bt out t4 show ?thesis by (simp add: Let_def)
            next
              case None
              from bt out t4 have "backtrack depth cw ?a1 s3 = Some (Inr (res4, a4, s4))" by simp
              from backtrack_keys [OF this] have k4: "fst ` set ?a1 \<subseteq> fst ` set a4" .
              have inv4: "\<forall>w'. unassigned cw (AList.update var w' a4) < depth"
              proof
                fix w'
                have "fst ` set ?a1 \<subseteq> fst ` set (AList.update var w' a4)"
                  using k4 by (auto simp: dom_update)
                from unassigned_mono [OF this, of cw] u1
                show "unassigned cw (AList.update var w' a4) < depth" by simp
              qed
              from Cons.IH [OF inv4, of "s4\<lparr>domains := domains s1\<rparr>"]
              show ?thesis using Inr t True enf ac t3 bt out t4 None by (simp add: Let_def)
            qed
          qed
        qed
      qed
    qed
  qed
qed

lemma backtrack_returns:
  "unassigned cw a < depth \<Longrightarrow> backtrack depth cw a s \<noteq> None"
proof (induction depth arbitrary: a s)
  case 0
  then show ?case by simp
next
  case (Suc depth)
  show ?case
  proof (cases "assignment_complete cw a")
    case True
    then show ?thesis by simp
  next
    case False
    show ?thesis
    proof (cases "select_unassigned_variable cw a s")
      case (Inl e)
      with False show ?thesis by simp
    next
      case (Inr sel)
      show ?thesis
      proof (cases sel)
        case None
        with False Inr show ?thesis by simp
      next
        case (Some var)
        with Inr have sel: "select_unassigned_variable cw a s = Inr (Some var)" by simp
        from select_unassigned_variable_member [OF sel] have
          v: "var \<in> set (variables cw)" "var \<notin> fst ` set a" by simp_all
        have inv: "\<forall>w. unassigned cw (AList.update var w a) < depth"
        proof
          fix w
          have "unassigned cw (AList.update var w a) < unassigned cw a"
            by (rule unassigned_less [OF _ v]) (auto simp: dom_update)
          with Suc.prems show "unassigned cw (AList.update var w a) < depth" by simp
        qed
        show ?thesis
        proof (cases "order_domain_values cw var a s")
          case (Inl e)
          with False sel show ?thesis by simp
        next
          case (Inr ws)
          from backtrack_words_returns [OF Suc.IH inv, of ws s] False sel Inr
          show ?thesis by simp
        qed
      qed
    qed
  qed
qed

lemma solve_returns:
  assumes "length (variables cw) < depth"
  shows "solve depth cw s \<noteq> None"
proof -
  have "unassigned cw [] < depth" using assms by (simp add: unassigned_def)
  from backtrack_returns [OF this] show ?thesis
    by (auto simp: solve_def split: sum.splits)
qed

end
